theory Spec2Isabelle
  imports Main
begin

unbundle bit_operations_syntax

section \<open>Values, errors and outcomes\<close>

text \<open>
  The program is \<^verbatim>\<open>program.py\<close>: a JTAG programmer for the ATmega162 that drives an
  FT232R in synchronous bit-bang mode. Python integers are \<^typ>\<open>int\<close>; a \<^verbatim>\<open>bytes\<close>,
  \<^verbatim>\<open>bytearray\<close> or list of integers is an \<^typ>\<open>int list\<close>; lengths, offsets and
  loop counters are \<^typ>\<open>nat\<close>.

  Exceptions are values. \<open>VerificationFailed offset wrote read\<close> is the
  \<^verbatim>\<open>RuntimeError\<close> of \<^verbatim>\<open>program_elf\<close>, with the three values its message is
  formatted from. \<open>TransportError\<close> stands for whatever the adapter itself raises.
\<close>

datatype error =
    ValueError
  | OverflowError
  | IndexError
  | TypeError
  | VerificationFailed nat "int list" "int list"
  | TransportError

text \<open>
  A call either returns a value or raises; in both cases the device (a global of the
  program) is left in some state, which the outcome carries.
\<close>

datatype ('a, 's) outcome = Returns 'a 's | Raises error 's

fun state_of :: "('a, 's) outcome \<Rightarrow> 's" where
  "state_of (Returns a s) = s"
| "state_of (Raises e s) = s"

datatype payload = PInt int | PBytes "int list"

section \<open>The TAP transaction codec: \<^verbatim>\<open>jtag_command\<close>\<close>

subsection \<open>Signal lines and instructions\<close>

definition TMS :: int where "TMS = push_bit 4 1"
definition TDI :: int where "TDI = push_bit 2 1"
definition TDO :: int where "TDO = push_bit 3 1"
definition TCK :: int where "TCK = push_bit 5 1"

text \<open>
  \<^verbatim>\<open>class AVR_JTAG(Enum)\<close>: (instruction register value, number of bits in the selected
  data register). The \<^verbatim>\<open>isinstance(instruction, AVR_JTAG)\<close> test of \<^verbatim>\<open>jtag_command\<close>
  is the type of the argument here.
\<close>

datatype AVR_JTAG =
    IDCODE
  | PROG_ENABLE
  | PROG_COMMANDS
  | PROG_PAGELOAD
  | PROG_PAGEREAD
  | AVR_RESET
  | BYPASS

fun instr_value :: "AVR_JTAG \<Rightarrow> int \<times> nat" where
  "instr_value IDCODE = (0x1, 32)"
| "instr_value PROG_ENABLE = (0x4, 16)"
| "instr_value PROG_COMMANDS = (0x5, 15)"
| "instr_value PROG_PAGELOAD = (0x6, 1024)"
| "instr_value PROG_PAGEREAD = (0x7, 1032)"
| "instr_value AVR_RESET = (0xC, 1)"
| "instr_value BYPASS = (0xF, 1)"

definition IR_LENGTH :: nat where "IR_LENGTH = 4"

definition CHUNK_SIZE :: nat where "CHUNK_SIZE = 256"

subsection \<open>Python helpers\<close>

text \<open>\<^verbatim>\<open>ceil(nbits / 8)\<close>\<close>

definition ceil8 :: "nat \<Rightarrow> nat" where
  "ceil8 nbits = (nbits + 7) div 8"

text \<open>
  \<^verbatim>\<open>v.to_bytes(len, 'little')\<close>: the \<open>len\<close> base-256 digits of \<open>v\<close>, least significant
  first; \<^verbatim>\<open>OverflowError\<close> for a negative \<open>v\<close> or one that needs more digits.
\<close>

definition to_bytes :: "int \<Rightarrow> nat \<Rightarrow> error + int list" where
  "to_bytes v len =
     (if v < 0 \<or> 256 ^ len \<le> v then Inl OverflowError
      else Inr (map (\<lambda>i. (v div 256 ^ i) mod 256) [0..<len]))"

text \<open>\<^verbatim>\<open>bytearray(xs)\<close>: \<^verbatim>\<open>ValueError\<close> unless every element is in \<^verbatim>\<open>range(256)\<close>.\<close>

definition to_bytearray :: "int list \<Rightarrow> error + int list" where
  "to_bytearray xs =
     (if list_all (\<lambda>b. 0 \<le> b \<and> b < 256) xs then Inr xs else Inl ValueError)"

text \<open>\<^verbatim>\<open>range(start, stop, step)\<close> for a positive step.\<close>

function py_range :: "nat \<Rightarrow> nat \<Rightarrow> nat \<Rightarrow> nat list" where
  "py_range start stop step =
     (if step = 0 \<or> stop \<le> start then []
      else start # py_range (start + step) stop step)"
  by pat_completeness auto
termination
  by (relation "measure (\<lambda>(start, stop, step). stop - start)") auto

declare py_range.simps [simp del]

text \<open>\<^verbatim>\<open>xs[a:b]\<close> for \<open>0 \<le> a \<le> b\<close>.\<close>

definition slice :: "'a list \<Rightarrow> nat \<Rightarrow> nat \<Rightarrow> 'a list" where
  "slice xs a b = take (b - a) (drop a xs)"

subsection \<open>Encoding the output stream (lines 29 to 77)\<close>

text \<open>
  \<^verbatim>\<open>clock_in(bits)\<close> appends \<open>bits\<close> and \<open>bits + TCK\<close> to the stream and returns the new
  length: the index, in the response, of the sample taken after the rising edge.
\<close>

definition clock_in :: "int \<Rightarrow> int list \<Rightarrow> nat \<times> int list" where
  "clock_in bits stream =
     (let stream' = stream @ [bits, bits + TCK] in (length stream', stream'))"

text \<open>\<^verbatim>\<open>for ii in range(n): clock_in(0)\<close>\<close>

fun clock_idle :: "nat \<Rightarrow> int list \<Rightarrow> int list" where
  "clock_idle 0 stream = stream"
| "clock_idle (Suc n) stream = clock_idle n (snd (clock_in 0 stream))"

text \<open>\<^verbatim>\<open>for tms in [...]: clock_in(tms * TMS)\<close>\<close>

fun clock_tms :: "int list \<Rightarrow> int list \<Rightarrow> int list" where
  "clock_tms [] stream = stream"
| "clock_tms (tms # rest) stream = clock_tms rest (snd (clock_in (tms * TMS) stream))"

text \<open>
  \<^verbatim>\<open>for bit in range(IR_LENGTH): clock_in((irvalue & 1) * TDI); irvalue >>= 1\<close>
\<close>

fun shift_ir :: "nat \<Rightarrow> int \<Rightarrow> int list \<Rightarrow> int list" where
  "shift_ir 0 irvalue stream = stream"
| "shift_ir (Suc n) irvalue stream =
     shift_ir n (drop_bit 1 irvalue) (snd (clock_in ((irvalue AND 1) * TDI) stream))"

text \<open>
  \<^verbatim>\<open>stream[-2] |= TMS; stream[-1] |= TMS\<close>. The stream holds at least 21 entries
  wherever the program does this, so the negative indices are in range.
\<close>

definition tms_on_last_cell :: "int list \<Rightarrow> int list" where
  "tms_on_last_cell stream =
     (let n = length stream;
          stream1 = stream[n - 2 := stream ! (n - 2) OR TMS]
      in stream1[n - 1 := stream1 ! (n - 1) OR TMS])"

text \<open>
  One round of the loop over the data register (lines 60 to 69). \<^verbatim>\<open>int(bit / 8)\<close> is
  \<open>bit div 8\<close> for the bit counts of the instruction set (the float division is exact
  there), and \<^verbatim>\<open>TDI * bool(x)\<close> is \<open>TDI\<close> or \<open>0\<close>.
\<close>

definition shift_dr_step :: "int list \<Rightarrow> nat \<Rightarrow> int list \<times> nat option \<Rightarrow> int list \<times> nat option" where
  "shift_dr_step data b st =
     (let stream = fst st;
          retindex = snd st;
          byte = b div 8;
          (ret, stream') =
            (if byte < length data
             then clock_in (TDI * of_bool ((drop_bit (b mod 8) (data ! byte)) AND 1 \<noteq> 0)) stream
             else clock_in 0 stream)
      in (stream', if b = 0 then Some ret else retindex))"

definition shift_dr :: "int list \<Rightarrow> nat \<Rightarrow> int list \<times> nat option \<Rightarrow> int list \<times> nat option" where
  "shift_dr data nbits st = fold (shift_dr_step data) [0..<nbits] st"

text \<open>The stream and \<^verbatim>\<open>retindex\<close> as they stand when \<^verbatim>\<open>dev.flush()\<close> is reached.\<close>

definition jtag_stream :: "int \<Rightarrow> nat \<Rightarrow> int list \<Rightarrow> int list \<times> nat option" where
  "jtag_stream irvalue nbits data =
     (let stream = [0];
          stream = clock_idle 2 stream;
          stream = clock_tms [1, 1, 0, 0] stream;
          stream = shift_ir IR_LENGTH irvalue stream;
          stream = tms_on_last_cell stream;
          stream = clock_tms [1, 0, 1, 0, 0] stream;
          (stream, retindex) = shift_dr data nbits (stream, None);
          stream = tms_on_last_cell stream;
          stream = clock_tms [1, 0] stream;
          stream = snd (clock_in 0 stream)
      in (stream, retindex))"

subsection \<open>The transport\<close>

text \<open>
  \<^verbatim>\<open>dev\<close> is a pylibftdi \<^verbatim>\<open>BitBangDevice\<close>, which is not part of the repository. It is
  a parameter: three operations on a device state \<^typ>\<open>'d\<close>, each of which may raise.
  \<^verbatim>\<open>write\<close> returns the number of bytes written and \<^verbatim>\<open>read(n)\<close> returns at most
  \<open>n\<close> bytes.
\<close>

record 'd transport =
  dev_flush :: "'d \<Rightarrow> (unit, 'd) outcome"
  dev_write :: "int list \<Rightarrow> 'd \<Rightarrow> (nat, 'd) outcome"
  dev_read :: "nat \<Rightarrow> 'd \<Rightarrow> (int list, 'd) outcome"

text \<open>
  The loop of lines 83 to 85 over the chunk offsets, \<^verbatim>\<open>read\<close> being the list of the
  responses so far.
\<close>

fun transfer :: "'d transport \<Rightarrow> int list \<Rightarrow> nat list \<Rightarrow> int list list \<Rightarrow> 'd
    \<Rightarrow> (int list list, 'd) outcome" where
  "transfer T stream [] read d = Returns read d"
| "transfer T stream (offset # offsets) read d =
     (case to_bytearray (slice stream offset (offset + CHUNK_SIZE)) of
        Inl e \<Rightarrow> Raises e d
      | Inr chunk \<Rightarrow>
          (case dev_write T chunk d of
             Raises e d1 \<Rightarrow> Raises e d1
           | Returns written d1 \<Rightarrow>
               (case dev_read T written d1 of
                  Raises e d2 \<Rightarrow> Raises e d2
                | Returns bs d2 \<Rightarrow> transfer T stream offsets (read @ [bs]) d2)))"

subsection \<open>Decoding the response (lines 87 and 88)\<close>

text \<open>
  \<^verbatim>\<open>bytes[int(bit / 8)] |= bool(ret[retindex + 2 * bit] & TDO) << (bit % 8)\<close>.
  Python loads \<^verbatim>\<open>bytes[...]\<close> first, then evaluates the right-hand side; each index
  out of range is an \<^verbatim>\<open>IndexError\<close>, and \<^verbatim>\<open>None + 2 * bit\<close> a \<^verbatim>\<open>TypeError\<close>.
\<close>

fun decode_bits :: "int list \<Rightarrow> nat option \<Rightarrow> nat list \<Rightarrow> int list \<Rightarrow> error + int list" where
  "decode_bits ret retindex [] bytes = Inr bytes"
| "decode_bits ret retindex (b # bits) bytes =
     (if length bytes \<le> b div 8 then Inl IndexError
      else (case retindex of
              None \<Rightarrow> Inl TypeError
            | Some r \<Rightarrow>
                if length ret \<le> r + 2 * b then Inl IndexError
                else decode_bits ret retindex bits
                       (bytes[b div 8 := bytes ! (b div 8)
                          OR push_bit (b mod 8) (of_bool (ret ! (r + 2 * b) AND TDO \<noteq> 0))])))"

subsection \<open>The whole transaction\<close>

text \<open>Lines 31 and 32: an integer payload becomes \<open>ceil(nbits / 8)\<close> bytes.\<close>

fun payload_bytes :: "nat \<Rightarrow> payload \<Rightarrow> error + int list" where
  "payload_bytes nbits (PInt v) = to_bytes v (ceil8 nbits)"
| "payload_bytes nbits (PBytes bs) = Inr bs"

definition jtag_command :: "'d transport \<Rightarrow> AVR_JTAG \<Rightarrow> payload \<Rightarrow> 'd \<Rightarrow> (int list, 'd) outcome" where
  "jtag_command T instruction data d =
     (let irvalue = fst (instr_value instruction);
          nbits = snd (instr_value instruction)
      in case payload_bytes nbits data of
           Inl e \<Rightarrow> Raises e d
         | Inr data' \<Rightarrow>
             (let (stream, retindex) = jtag_stream irvalue nbits data' in
              case dev_flush T d of
                Raises e d1 \<Rightarrow> Raises e d1
              | Returns u d1 \<Rightarrow>
                  (case transfer T stream (py_range 0 (length stream) CHUNK_SIZE) [] d1 of
                     Raises e d2 \<Rightarrow> Raises e d2
                   | Returns read d2 \<Rightarrow>
                       (case decode_bits (concat read) retindex [0..<nbits]
                               (replicate (ceil8 nbits) 0) of
                          Inl e \<Rightarrow> Raises e d2
                        | Inr bytes \<Rightarrow> Returns bytes d2))))"

subsection \<open>A simulated transport\<close>

text \<open>
  The state is the bytes the device will answer with and the bytes written to it so
  far. A write takes every byte; a read hands out the next bytes of the answer, fewer
  than asked for when the answer runs out, as pylibftdi's \<^verbatim>\<open>read\<close> may.
\<close>

type_synonym sim = "int list \<times> int list"

definition sim_transport :: "sim transport" where
  "sim_transport =
     \<lparr> dev_flush = (\<lambda>d. Returns () d),
       dev_write = (\<lambda>bs d. Returns (length bs) (fst d, snd d @ bs)),
       dev_read = (\<lambda>n d. Returns (take n (fst d)) (drop n (fst d), snd d)) \<rparr>"

section \<open>The programming sequences\<close>

text \<open>
  \<^verbatim>\<open>program_elf\<close>, \<^verbatim>\<open>poll_fuse_write_complete\<close> and \<^verbatim>\<open>program_fuses\<close> are sequences of
  calls of \<^verbatim>\<open>jtag_command\<close>. Here the callee is a parameter \<open>jtag\<close> over a state
  \<^typ>\<open>'s\<close>, so that the same definitions run on \<open>jtag_command T\<close> for a transport \<open>T\<close>
  and on a simulated chip that records the transactions it is sent.
\<close>

type_synonym 's jtag = "AVR_JTAG \<Rightarrow> payload \<Rightarrow> 's \<Rightarrow> (int list, 's) outcome"

text \<open>A call whose result is dropped.\<close>

definition call :: "'s jtag \<Rightarrow> AVR_JTAG \<Rightarrow> payload \<Rightarrow> 's \<Rightarrow> (unit, 's) outcome" where
  "call jtag instruction data s =
     (case jtag instruction data s of
        Returns r s' \<Rightarrow> Returns () s'
      | Raises e s' \<Rightarrow> Raises e s')"

text \<open>Statements in sequence: the first one that raises ends the run.\<close>

fun do_all :: "('s \<Rightarrow> (unit, 's) outcome) list \<Rightarrow> 's \<Rightarrow> (unit, 's) outcome" where
  "do_all [] s = Returns () s"
| "do_all (stmt # rest) s =
     (case stmt s of
        Returns u s' \<Rightarrow> do_all rest s'
      | Raises e s' \<Rightarrow> Raises e s')"

text \<open>\<^verbatim>\<open>for x in xs: body(x)\<close>\<close>

definition for_each :: "'a list \<Rightarrow> ('a \<Rightarrow> 's \<Rightarrow> (unit, 's) outcome) \<Rightarrow> 's \<Rightarrow> (unit, 's) outcome" where
  "for_each xs body = do_all (map body xs)"

subsection \<open>\<^verbatim>\<open>program_elf\<close>\<close>

definition PAGE_BYTES :: nat where "PAGE_BYTES = 1024 div 8"

text \<open>
  The body of the write loop (lines 119 to 128). In Python \<^verbatim>\<open>&\<close> binds tighter than
  \<^verbatim>\<open>|\<close>. \<^verbatim>\<open>sleep\<close> changes nothing that is modelled.
\<close>

definition write_page :: "'s jtag \<Rightarrow> int list \<Rightarrow> nat \<Rightarrow> 's \<Rightarrow> (unit, 's) outcome" where
  "write_page jtag program offset =
     (let address = drop_bit 1 (int offset) in
      do_all
        [call jtag PROG_COMMANDS (PInt (0x0700 OR ((drop_bit 8 address) AND 0xff))),
         call jtag PROG_COMMANDS (PInt (0x0300 OR (address AND 0xff))),
         call jtag PROG_PAGELOAD (PBytes (slice program offset (offset + PAGE_BYTES))),
         call jtag PROG_COMMANDS (PInt 0x3700),
         call jtag PROG_COMMANDS (PInt 0x3500),
         call jtag PROG_COMMANDS (PInt 0x3700),
         call jtag PROG_COMMANDS (PInt 0x3700)])"

text \<open>
  The body of the verify loop (lines 132 to 138). \<^verbatim>\<open>[1:]\<close> drops the first element of
  the returned \<^verbatim>\<open>bytearray\<close>. Within the loop \<open>offset < len(program)\<close>, so the bound of
  \<^verbatim>\<open>read[:len(program)-offset]\<close> is positive.
\<close>

definition verify_page :: "'s jtag \<Rightarrow> int list \<Rightarrow> nat \<Rightarrow> 's \<Rightarrow> (unit, 's) outcome" where
  "verify_page jtag program offset s =
     (let address = drop_bit 1 (int offset) in
      case do_all
             [call jtag PROG_COMMANDS (PInt (0x0700 OR ((drop_bit 8 address) AND 0xff))),
              call jtag PROG_COMMANDS (PInt (0x0300 OR (address AND 0xff)))] s of
        Raises e s1 \<Rightarrow> Raises e s1
      | Returns u s1 \<Rightarrow>
          (case jtag PROG_PAGEREAD (PInt 0) s1 of
             Raises e s2 \<Rightarrow> Raises e s2
           | Returns r s2 \<Rightarrow>
               (let read = drop 1 r in
                if take (length program - offset) read \<noteq> slice program offset (offset + PAGE_BYTES)
                then Raises (VerificationFailed offset
                               (slice program offset (offset + PAGE_BYTES)) read) s2
                else Returns () s2)))"

text \<open>
  \<^verbatim>\<open>program_elf\<close>, from line 108 on. \<open>program\<close> is the data of the \<^verbatim>\<open>.text\<close> section, which
  pyelftools (not part of the repository) extracts from the file.
\<close>

definition program_elf :: "'s jtag \<Rightarrow> int list \<Rightarrow> bool \<Rightarrow> 's \<Rightarrow> (unit, 's) outcome" where
  "program_elf jtag program verify =
     do_all
       ([call jtag AVR_RESET (PInt 1),
         call jtag PROG_ENABLE (PInt 0xA370),
         call jtag PROG_COMMANDS (PInt 0x2380),
         call jtag PROG_COMMANDS (PInt 0x3180),
         call jtag PROG_COMMANDS (PInt 0x3380),
         call jtag PROG_COMMANDS (PInt 0x3380),
         call jtag PROG_COMMANDS (PInt 0x2310),
         for_each (py_range 0 (length program) PAGE_BYTES) (write_page jtag program)]
        @ (if verify
           then [call jtag PROG_COMMANDS (PInt 0x2302),
                 for_each (py_range 0 (length program) PAGE_BYTES) (verify_page jtag program)]
           else [])
        @ [call jtag PROG_COMMANDS (PInt 0x2300),
           call jtag PROG_COMMANDS (PInt 0x3300),
           call jtag PROG_ENABLE (PInt 0),
           call jtag AVR_RESET (PInt 0)])"

subsection \<open>\<^verbatim>\<open>poll_fuse_write_complete\<close> and \<^verbatim>\<open>program_fuses\<close>\<close>

text \<open>
  \<^verbatim>\<open>while True: if jtag_command(AVR_JTAG.PROG_COMMANDS, 0x3700)[1] & 2: break\<close>. The loop
  has no bound: \<open>None\<close> is a run that never ends.
\<close>

partial_function (option) poll_fuse_write_complete :: "'s jtag \<Rightarrow> 's \<Rightarrow> (unit, 's) outcome option" where
  "poll_fuse_write_complete jtag s =
     (case jtag PROG_COMMANDS (PInt 0x3700) s of
        Raises e s' \<Rightarrow> Some (Raises e s')
      | Returns r s' \<Rightarrow>
          if length r \<le> 1 then Some (Raises IndexError s')
          else if r ! 1 AND 2 \<noteq> 0 then Some (Returns () s')
          else poll_fuse_write_complete jtag s')"

text \<open>An argument of \<^verbatim>\<open>program_fuses\<close>: an integer or something else.\<close>

datatype pyval = PyInt int | PyStr string | PyNone

text \<open>Statements in sequence, where a statement may never end.\<close>

fun do_all_opt :: "('s \<Rightarrow> (unit, 's) outcome option) list \<Rightarrow> 's \<Rightarrow> (unit, 's) outcome option" where
  "do_all_opt [] s = Some (Returns () s)"
| "do_all_opt (stmt # rest) s =
     (case stmt s of
        None \<Rightarrow> None
      | Some (Raises e s') \<Rightarrow> Some (Raises e s')
      | Some (Returns u s') \<Rightarrow> do_all_opt rest s')"

definition total :: "('s \<Rightarrow> (unit, 's) outcome) \<Rightarrow> 's \<Rightarrow> (unit, 's) outcome option" where
  "total stmt s = Some (stmt s)"

text \<open>
  \<^verbatim>\<open>program_fuses\<close>. Only \<^verbatim>\<open>fuses\<close> is tested with \<^verbatim>\<open>isinstance\<close>. \<^verbatim>\<open>extended_fuses & 0xff\<close>
  raises \<^verbatim>\<open>TypeError\<close> for a string or \<^verbatim>\<open>None\<close>, when line 154 evaluates the argument
  of its call.
\<close>

definition program_fuses :: "'s jtag \<Rightarrow> pyval \<Rightarrow> pyval \<Rightarrow> 's \<Rightarrow> (unit, 's) outcome option" where
  "program_fuses jtag fuses extended_fuses s =
     (case fuses of
        PyInt f \<Rightarrow>
          do_all_opt
            [total (call jtag AVR_RESET (PInt 1)),
             total (call jtag PROG_ENABLE (PInt 0xA370)),
             total (call jtag PROG_COMMANDS (PInt 0x2340)),
             (case extended_fuses of
                PyInt e \<Rightarrow> total (call jtag PROG_COMMANDS (PInt (0x1300 OR (e AND 0xff))))
              | _ \<Rightarrow> (\<lambda>s1. Some (Raises TypeError s1))),
             total (call jtag PROG_COMMANDS (PInt 0x3b00)),
             total (call jtag PROG_COMMANDS (PInt 0x3900)),
             total (call jtag PROG_COMMANDS (PInt 0x3b00)),
             total (call jtag PROG_COMMANDS (PInt 0x3b00)),
             poll_fuse_write_complete jtag,
             total (call jtag PROG_COMMANDS (PInt (0x1300 OR ((drop_bit 8 f) AND 0xff)))),
             total (call jtag PROG_COMMANDS (PInt 0x3700)),
             total (call jtag PROG_COMMANDS (PInt 0x3500)),
             total (call jtag PROG_COMMANDS (PInt 0x3700)),
             total (call jtag PROG_COMMANDS (PInt 0x3700)),
             poll_fuse_write_complete jtag,
             total (call jtag PROG_COMMANDS (PInt (0x1300 OR (f AND 0xff)))),
             total (call jtag PROG_COMMANDS (PInt 0x3300)),
             total (call jtag PROG_COMMANDS (PInt 0x3100)),
             total (call jtag PROG_COMMANDS (PInt 0x3300)),
             total (call jtag PROG_COMMANDS (PInt 0x3300)),
             poll_fuse_write_complete jtag] s
      | _ \<Rightarrow> Some (Raises TypeError s))"

subsection \<open>A simulated chip\<close>

text \<open>
  The state is the list of the transactions so far; \<open>f\<close> gives the chip's answer to a
  transaction from those before it. The chip never raises.
\<close>

type_synonym command = "AVR_JTAG \<times> payload"

definition sim_jtag :: "(command list \<Rightarrow> command \<Rightarrow> int list) \<Rightarrow> command list jtag" where
  "sim_jtag f instruction data h = Returns (f h (instruction, data)) (h @ [(instruction, data)])"

section \<open>The transaction as the specification describes it\<close>

text \<open>
  The definitions of this section are not translations of the program: they state, in
  the specification's words, what the program is compared with.

  A bit-cell is a pre-edge byte followed by the same line levels with \<open>TCK\<close> raised.
\<close>

definition cell :: "int \<Rightarrow> int list" where
  "cell b = [b, b + TCK]"

definition cells :: "int list \<Rightarrow> int list" where
  "cells bs = concat (map cell bs)"

definition tdi_of :: "bool \<Rightarrow> int" where
  "tdi_of b = (if b then TDI else 0)"

text \<open>Bit \<open>i\<close> of a byte sequence: bit \<open>i mod 8\<close> of byte \<open>i div 8\<close>, zero past its end.\<close>

definition payload_bit :: "int list \<Rightarrow> nat \<Rightarrow> bool" where
  "payload_bit data i = (i div 8 < length data \<and> bit (data ! (i div 8)) (i mod 8))"

text \<open>
  The line levels of the cells of one transaction, steps 1 to 6 of the encoding: two
  idle clocks, the walk to Shift-IR, the four instruction bits (the last with \<open>TMS\<close>),
  the walk to Shift-DR, the data bits (the last with \<open>TMS\<close>), the walk back and one
  idle clock.
\<close>

definition frame :: "int \<Rightarrow> nat \<Rightarrow> int list \<Rightarrow> int list" where
  "frame irvalue nbits data =
     replicate 2 0 @ [TMS, TMS, 0, 0]
     @ map (\<lambda>j. tdi_of (bit irvalue j) OR (if Suc j = 4 then TMS else 0)) [0..<4]
     @ [TMS, 0, TMS, 0, 0]
     @ map (\<lambda>i. tdi_of (payload_bit data i) OR (if Suc i = nbits then TMS else 0)) [0..<nbits]
     @ [TMS, 0] @ [0]"

text \<open>
  A payload as a bit sequence: least significant bit first within each byte, the bytes
  in order, padded with zero bits or cut to \<open>n\<close> bits.
\<close>

definition byte_bits :: "int \<Rightarrow> bool list" where
  "byte_bits b = map (bit b) [0..<8]"

definition payload_bits :: "nat \<Rightarrow> int list \<Rightarrow> bool list" where
  "payload_bits n bs = take n (concat (map byte_bits bs) @ replicate n False)"

text \<open>
  Packing a bit pattern least-significant-bit-first into \<open>ceil(n / 8)\<close> bytes.
\<close>

fun bits_value :: "bool list \<Rightarrow> int" where
  "bits_value [] = 0"
| "bits_value (b # bs) = of_bool b + 2 * bits_value bs"

definition pack_bits :: "bool list \<Rightarrow> int list" where
  "pack_bits bs = map (\<lambda>j. bits_value (take 8 (drop (8 * j) bs))) [0..<ceil8 (length bs)]"

text \<open>The state of the \<open>TDO\<close> line in byte \<open>k\<close> of a response.\<close>

definition tdo_sample :: "int list \<Rightarrow> nat \<Rightarrow> bool" where
  "tdo_sample ret k = (ret ! k AND TDO \<noteq> 0)"

text \<open>What the simulated transport has been sent when a call is over.\<close>

definition emitted :: "('a, sim) outcome \<Rightarrow> int list" where
  "emitted out = snd (state_of out)"

text \<open>
  The bytes of the data-register cells within a stream: they follow the leading byte
  and the fifteen cells of steps 1 to 4.
\<close>

definition dr_cells :: "nat \<Rightarrow> int list \<Rightarrow> int list" where
  "dr_cells n stream = take (2 * n) (drop (1 + 2 * 15) stream)"

section \<open>The sequences as the specification describes them\<close>

text \<open>A list of transactions, run in order.\<close>

definition run_commands :: "'s jtag \<Rightarrow> command list \<Rightarrow> 's \<Rightarrow> (unit, 's) outcome" where
  "run_commands jtag cmds = do_all (map (\<lambda>c. call jtag (fst c) (snd c)) cmds)"

text \<open>
  Loading the word address of a byte offset: the high byte, then the low byte.
\<close>

definition address_commands :: "nat \<Rightarrow> command list" where
  "address_commands offset =
     (let address = int (offset div 2) in
      [(PROG_COMMANDS, PInt (0x0700 OR ((drop_bit 8 address) AND 0xFF))),
       (PROG_COMMANDS, PInt (0x0300 OR (address AND 0xFF)))])"

text \<open>Page \<open>k\<close> of an image, and the transactions that write it.\<close>

definition page :: "int list \<Rightarrow> nat \<Rightarrow> int list" where
  "page img k = take 128 (drop (128 * k) img)"

definition page_count :: "int list \<Rightarrow> nat" where
  "page_count img = (length img + 127) div 128"

definition page_commands :: "int list \<Rightarrow> nat \<Rightarrow> command list" where
  "page_commands img k =
     address_commands (128 * k)
     @ [(PROG_PAGELOAD, PBytes (page img k)),
        (PROG_COMMANDS, PInt 0x3700), (PROG_COMMANDS, PInt 0x3500),
        (PROG_COMMANDS, PInt 0x3700), (PROG_COMMANDS, PInt 0x3700)]"

text \<open>Reset, enable, chip erase, flash-write mode and the pages in ascending order.\<close>

definition write_commands :: "int list \<Rightarrow> command list" where
  "write_commands img =
     [(AVR_RESET, PInt 1), (PROG_ENABLE, PInt 0xA370),
      (PROG_COMMANDS, PInt 0x2380), (PROG_COMMANDS, PInt 0x3180),
      (PROG_COMMANDS, PInt 0x3380), (PROG_COMMANDS, PInt 0x3380),
      (PROG_COMMANDS, PInt 0x2310)]
     @ concat (map (page_commands img) [0..<page_count img])"

definition exit_commands :: "command list" where
  "exit_commands =
     [(PROG_COMMANDS, PInt 0x2300), (PROG_COMMANDS, PInt 0x3300),
      (PROG_ENABLE, PInt 0), (AVR_RESET, PInt 0)]"

text \<open>Reading page \<open>k\<close> back, and everything sent before the read of page \<open>k\<close>.\<close>

definition read_commands :: "nat \<Rightarrow> command list" where
  "read_commands k = address_commands (128 * k) @ [(PROG_PAGEREAD, PInt 0)]"

definition before_read :: "int list \<Rightarrow> nat \<Rightarrow> command list" where
  "before_read img k =
     write_commands img @ [(PROG_COMMANDS, PInt 0x2302)]
     @ concat (map read_commands [0..<k]) @ address_commands (128 * k)"

text \<open>
  What the simulated chip \<open>f\<close> returns for the read of page \<open>k\<close> without its first
  byte, and whether the program accepts it.
\<close>

definition readback :: "(command list \<Rightarrow> command \<Rightarrow> int list) \<Rightarrow> int list \<Rightarrow> nat \<Rightarrow> int list" where
  "readback f img k = drop 1 (f (before_read img k) (PROG_PAGEREAD, PInt 0))"

definition page_ok :: "(command list \<Rightarrow> command \<Rightarrow> int list) \<Rightarrow> int list \<Rightarrow> nat \<Rightarrow> bool" where
  "page_ok f img k = (take (length img - 128 * k) (readback f img k) = page img k)"

text \<open>
  The 128 bytes that stand for page \<open>k\<close> in the flash: the page, zero-padded when it is
  short. And the transactions of a run whose verification passes.
\<close>

definition written_page :: "int list \<Rightarrow> nat \<Rightarrow> int list" where
  "written_page img k = page img k @ replicate (128 - length (page img k)) 0"

definition verified_commands :: "int list \<Rightarrow> command list" where
  "verified_commands img =
     write_commands img @ [(PROG_COMMANDS, PInt 0x2302)]
     @ concat (map read_commands [0..<page_count img]) @ exit_commands"

text \<open>
  A returned buffer without its first bit: the remaining bits, repacked into bytes.
\<close>

definition discard_first_bit :: "int list \<Rightarrow> int list" where
  "discard_first_bit r = pack_bits (drop 1 (concat (map byte_bits r)))"

text \<open>The poll of the fuse write, and the transactions of a fuse run that polls once each time.\<close>

definition poll_command :: command where
  "poll_command = (PROG_COMMANDS, PInt 0x3700)"

definition fuse_commands :: "int \<Rightarrow> int \<Rightarrow> int \<Rightarrow> command list" where
  "fuse_commands extended high low =
     [(AVR_RESET, PInt 1), (PROG_ENABLE, PInt 0xA370), (PROG_COMMANDS, PInt 0x2340),
      (PROG_COMMANDS, PInt (0x1300 OR extended)),
      (PROG_COMMANDS, PInt 0x3b00), (PROG_COMMANDS, PInt 0x3900),
      (PROG_COMMANDS, PInt 0x3b00), (PROG_COMMANDS, PInt 0x3b00),
      poll_command,
      (PROG_COMMANDS, PInt (0x1300 OR high)),
      (PROG_COMMANDS, PInt 0x3700), (PROG_COMMANDS, PInt 0x3500),
      (PROG_COMMANDS, PInt 0x3700), (PROG_COMMANDS, PInt 0x3700),
      poll_command,
      (PROG_COMMANDS, PInt (0x1300 OR low)),
      (PROG_COMMANDS, PInt 0x3300), (PROG_COMMANDS, PInt 0x3100),
      (PROG_COMMANDS, PInt 0x3300), (PROG_COMMANDS, PInt 0x3300),
      poll_command]"

section \<open>Properties of the codec\<close>

lemma line_values: "TMS = 16" "TDI = 4" "TDO = 8" "TCK = 32"
  by (simp_all add: TMS_def TDI_def TDO_def TCK_def)

lemma cells_append: "cells (xs @ ys) = cells xs @ cells ys"
  by (simp add: cells_def)

lemma cells_Cons: "cells (x # xs) = cell x @ cells xs"
  by (simp add: cells_def)

lemma cells_Nil: "cells [] = []"
  by (simp add: cells_def)

lemma clock_in_snd: "snd (clock_in b s) = s @ cell b"
  by (simp add: clock_in_def cell_def Let_def)

lemma clock_in_fst: "fst (clock_in b s) = length s + 2"
  by (simp add: clock_in_def Let_def)

lemma clock_idle_eq: "clock_idle n s = s @ cells (replicate n 0)"
  by (induction n arbitrary: s) (simp_all add: clock_in_snd cells_Cons cells_Nil)

lemma clock_tms_eq: "clock_tms ts s = s @ cells (map (\<lambda>t. t * TMS) ts)"
  by (induction ts arbitrary: s) (simp_all add: clock_in_snd cells_Cons cells_Nil)

lemma low_bit_tdi: "(drop_bit j x AND 1) * TDI = tdi_of (bit x j)" for x :: int
  by (simp add: tdi_of_def and_one_eq bit_iff_odd_drop_bit mod_2_eq_odd)

lemma shift_ir_eq:
  "shift_ir n ir s = s @ cells (map (\<lambda>j. tdi_of (bit ir j)) [0..<n])"
proof (induction n arbitrary: ir s)
  case 0
  then show ?case by (simp add: cells_Nil)
next
  case (Suc n)
  have "(ir AND 1) * TDI = tdi_of (bit ir 0)"
    using low_bit_tdi [of 0 ir] by simp
  moreover have "map (\<lambda>j. tdi_of (bit ir j)) [0..<Suc n]
      = tdi_of (bit ir 0) # map (\<lambda>j. tdi_of (bit (drop_bit 1 ir) j)) [0..<n]"
    by (simp add: upt_conv_Cons map_Suc_upt [symmetric] bit_drop_bit_eq del: upt_Suc)
  ultimately show ?case
    by (simp add: Suc.IH clock_in_snd cells_Cons del: upt_Suc)
qed

lemma dr_bit_tdi:
  "TDI * of_bool (drop_bit k x AND 1 \<noteq> 0) = tdi_of (bit x k)" for x :: int
  by (simp add: tdi_of_def and_one_eq bit_iff_odd_drop_bit mod_2_eq_odd)

lemma shift_dr_step_eq:
  "shift_dr_step data b (s, ri) =
     (s @ cell (tdi_of (payload_bit data b)), if b = 0 then Some (length s + 2) else ri)"
proof (cases "b div 8 < length data")
  case True
  then show ?thesis
    by (simp add: shift_dr_step_def Let_def clock_in_def cell_def dr_bit_tdi payload_bit_def)
next
  case False
  then show ?thesis
    by (simp add: shift_dr_step_def Let_def clock_in_def cell_def payload_bit_def tdi_of_def)
qed

lemma shift_dr_eq:
  "shift_dr data n (s, ri) =
     (s @ cells (map (\<lambda>i. tdi_of (payload_bit data i)) [0..<n]),
      if n = 0 then ri else Some (length s + 2))"
proof (induction n)
  case 0
  then show ?case by (simp add: shift_dr_def cells_Nil)
next
  case (Suc n)
  then show ?case
    by (simp add: shift_dr_def shift_dr_step_eq cells_append cells_Cons cells_Nil)
qed

lemma tms_on_last_cell_eq:
  "tms_on_last_cell (s @ cell (tdi_of x)) = s @ cell (tdi_of x OR TMS)"
  by (cases x) (simp_all add: tms_on_last_cell_def Let_def cell_def tdi_of_def line_values
      nth_append list_update_append)

lemma length_cells: "length (cells bs) = 2 * length bs"
  by (induction bs) (simp_all add: cells_Cons cells_Nil cell_def)

lemma frame_ir_part:
  "map (\<lambda>j. tdi_of (bit ir j) OR (if Suc j = 4 then TMS else 0)) [0..<4]
     = map (\<lambda>j. tdi_of (bit ir j)) [0..<3] @ [tdi_of (bit ir 3) OR TMS]"
  by (simp add: upt_conv_Cons numeral_3_eq_3 del: upt_Suc)

lemma frame_dr_part:
  "map (\<lambda>i. tdi_of (payload_bit data i) OR (if Suc i = Suc n then TMS else 0)) [0..<Suc n]
     = map (\<lambda>i. tdi_of (payload_bit data i)) [0..<n] @ [tdi_of (payload_bit data n) OR TMS]"
  by simp

lemma jtag_stream_eq:
  assumes "0 < nbits"
  shows "jtag_stream irvalue nbits data = (0 # cells (frame irvalue nbits data), Some 33)"
proof -
  obtain n where n: "nbits = Suc n"
    using assms by (cases nbits) simp_all
  let ?pre = "[0] @ cells (replicate 2 0) @ cells [TMS, TMS, 0, 0]
      @ cells (map (\<lambda>j. tdi_of (bit irvalue j)) [0..<3])"
  let ?s1 = "?pre @ cell (tdi_of (bit irvalue 3))"
  have ir: "shift_ir IR_LENGTH irvalue (clock_tms [1, 1, 0, 0] (clock_idle 2 [0])) = ?s1"
    by (simp add: IR_LENGTH_def shift_ir_eq clock_tms_eq clock_idle_eq cells_append cells_Cons
        cells_Nil upt_conv_Cons numeral_3_eq_3 del: upt_Suc shift_ir.simps clock_idle.simps clock_tms.simps)
  let ?s2 = "?pre @ cell (tdi_of (bit irvalue 3) OR TMS) @ cells [TMS, 0, TMS, 0, 0]"
  have s2: "clock_tms [1, 0, 1, 0, 0] (tms_on_last_cell ?s1) = ?s2"
    unfolding tms_on_last_cell_eq by (simp add: clock_tms_eq del: clock_tms.simps)
  have len2: "length ?s2 = 31"
    by (simp add: length_cells cell_def)
  let ?s3 = "?s2 @ cells (map (\<lambda>i. tdi_of (payload_bit data i)) [0..<n])"
  have dr: "shift_dr data nbits (?s2, None) = (?s3 @ cell (tdi_of (payload_bit data n)), Some 33)"
    unfolding shift_dr_eq n using len2 by (simp add: cells_append cells_Cons cells_Nil)
  have post: "snd (clock_in 0 (clock_tms [1, 0]
        (tms_on_last_cell (?s3 @ cell (tdi_of (payload_bit data n))))))
      = ?s3 @ cell (tdi_of (payload_bit data n) OR TMS) @ cells [TMS, 0] @ cells [0]"
    unfolding tms_on_last_cell_eq
    by (simp add: clock_tms_eq clock_in_snd cells_Cons cells_Nil del: clock_tms.simps)
  have "jtag_stream irvalue nbits data
      = (?s3 @ cell (tdi_of (payload_bit data n) OR TMS) @ cells [TMS, 0] @ cells [0], Some 33)"
    unfolding jtag_stream_def Let_def ir s2 dr using post by simp
  also have "?s3 @ cell (tdi_of (payload_bit data n) OR TMS) @ cells [TMS, 0] @ cells [0]
      = 0 # cells (frame irvalue nbits data)"
    unfolding frame_def n frame_ir_part frame_dr_part
    by (simp add: cells_append cells_Cons cells_Nil)
  finally show ?thesis .
qed

lemma length_frame: "length (frame irvalue nbits data) = 18 + nbits"
  by (simp add: frame_def)

lemma tdi_of_cases: "tdi_of x = 0 \<or> tdi_of x = 4"
  by (simp add: tdi_of_def line_values)

lemma frame_levels: "set (frame irvalue nbits data) \<subseteq> {0, 4, 16, 20}"
proof -
  have "tdi_of x OR (if c then TMS else 0) \<in> {0, 4, 16, 20}" for x c
    using tdi_of_cases [of x] by (auto simp: line_values)
  then show ?thesis
    by (auto simp: frame_def line_values simp del: upt_Suc)
qed

lemma set_cells: "set (cells bs) = set bs \<union> (\<lambda>b. b + TCK) ` set bs"
  by (induction bs) (auto simp: cells_Cons cells_Nil cell_def)

lemma stream_levels:
  "set (0 # cells (frame irvalue nbits data)) \<subseteq> {0, 4, 16, 20, 32, 36, 48, 52}"
  using frame_levels [of irvalue nbits data]
  by (auto simp: set_cells line_values)

lemma stream_bytes:
  "list_all (\<lambda>b. 0 \<le> b \<and> b < 256) (0 # cells (frame irvalue nbits data))"
  unfolding list_all_iff using stream_levels [of irvalue nbits data] by fastforce

lemma list_all_slice: "list_all P xs \<Longrightarrow> list_all P (slice xs a b)"
  unfolding list_all_iff slice_def
  by (meson in_set_dropD in_set_takeD)

lemma transfer_sim:
  assumes "list_all (\<lambda>b. 0 \<le> b \<and> b < 256) stream"
  shows "\<exists>rd. transfer sim_transport stream (py_range start (length stream) CHUNK_SIZE) read (resp, out)
           = Returns rd (drop (length stream - start) resp, out @ drop start stream)
         \<and> concat rd = concat read @ take (length stream - start) resp"
proof (induction start "length stream" CHUNK_SIZE arbitrary: read resp out rule: py_range.induct)
  case (1 start)
  show ?case
  proof (cases "length stream \<le> start")
    case True
    then show ?thesis
      by (simp add: py_range.simps [of start])
  next
    case False
    let ?chunk = "slice stream start (start + CHUNK_SIZE)"
    let ?len = "min CHUNK_SIZE (length stream - start)"
    have step: "CHUNK_SIZE \<noteq> 0" by (simp add: CHUNK_SIZE_def)
    have len: "length ?chunk = ?len"
      by (simp add: slice_def)
    have chunk: "to_bytearray ?chunk = Inr ?chunk"
      using list_all_slice [OF assms] by (simp add: to_bytearray_def)
    from False step have "\<not> (CHUNK_SIZE = 0 \<or> length stream \<le> start)" by simp
    from "1.hyps" [OF this, of "read @ [take ?len resp]" "drop ?len resp" "out @ ?chunk"]
    obtain rd where rd: "transfer sim_transport stream
          (py_range (start + CHUNK_SIZE) (length stream) CHUNK_SIZE)
          (read @ [take ?len resp]) (drop ?len resp, out @ ?chunk)
        = Returns rd (drop (length stream - (start + CHUNK_SIZE)) (drop ?len resp),
            (out @ ?chunk) @ drop (start + CHUNK_SIZE) stream)"
      and cat: "concat rd = concat (read @ [take ?len resp])
          @ take (length stream - (start + CHUNK_SIZE)) (drop ?len resp)"
      by blast
    have a: "length stream - (start + CHUNK_SIZE) + ?len = length stream - start"
      by arith
    have d: "drop (length stream - (start + CHUNK_SIZE)) (drop ?len resp)
        = drop (length stream - start) resp"
      by (simp only: drop_drop a)
    have o: "(out @ ?chunk) @ drop (start + CHUNK_SIZE) stream = out @ drop start stream"
      by (simp add: slice_def add.commute [of start] drop_drop [symmetric] del: drop_drop)
    have t: "take ?len resp @ take (length stream - (start + CHUNK_SIZE)) (drop ?len resp)
        = take (length stream - start) resp"
      using take_add [of ?len "length stream - (start + CHUNK_SIZE)" resp]
      by (simp only: add.commute [of ?len] a)
    have "transfer sim_transport stream (py_range start (length stream) CHUNK_SIZE) read (resp, out)
        = transfer sim_transport stream
          (py_range (start + CHUNK_SIZE) (length stream) CHUNK_SIZE)
          (read @ [take ?len resp]) (drop ?len resp, out @ ?chunk)"
      using False step
      by (simp add: py_range.simps [of start] chunk sim_transport_def len)
    with rd cat d o t show ?thesis
      by simp
  qed
qed

lemma bit_bits_value: "bit (bits_value bs) k = (k < length bs \<and> bs ! k)"
proof (induction bs arbitrary: k)
  case Nil
  then show ?case by simp
next
  case (Cons b bs)
  show ?case
  proof (cases k)
    case 0
    then show ?thesis by (simp add: bit_0)
  next
    case (Suc k')
    then show ?thesis by (simp add: bit_Suc Cons.IH)
  qed
qed

lemma length_pack_bits: "length (pack_bits bs) = ceil8 (length bs)"
  by (simp add: pack_bits_def)

lemma bit_pack_bits:
  assumes "j < ceil8 (length bs)"
  shows "bit (pack_bits bs ! j) k = (k < 8 \<and> 8 * j + k < length bs \<and> bs ! (8 * j + k))"
  using assms by (auto simp: pack_bits_def bit_bits_value)

lemma bit_decode_update:
  "bit (x OR push_bit m (of_bool c)) k = (bit x k \<or> (c \<and> k = m))" for x :: int
  by (auto simp: bit_or_iff bit_push_bit_iff bit_of_bool_iff)

lemma decode_bits_ok:
  assumes "\<forall>b \<in> set bits. b div 8 < length buf \<and> r + 2 * b < length ret"
  shows "\<exists>buf'. decode_bits ret (Some r) bits buf = Inr buf' \<and> length buf' = length buf
     \<and> (\<forall>j k. j < length buf \<longrightarrow>
          bit (buf' ! j) k = (bit (buf ! j) k
             \<or> (\<exists>b \<in> set bits. b div 8 = j \<and> b mod 8 = k \<and> tdo_sample ret (r + 2 * b))))"
  using assms
proof (induction bits arbitrary: buf)
  case Nil
  then show ?case by simp
next
  case (Cons b bits)
  let ?buf1 = "buf[b div 8 := buf ! (b div 8)
      OR push_bit (b mod 8) (of_bool (ret ! (r + 2 * b) AND TDO \<noteq> 0))]"
  from Cons.prems have inb: "b div 8 < length buf" "r + 2 * b < length ret"
    and rest: "\<forall>b \<in> set bits. b div 8 < length ?buf1 \<and> r + 2 * b < length ret"
    by simp_all
  from Cons.IH [OF rest] obtain buf' where
    dec: "decode_bits ret (Some r) bits ?buf1 = Inr buf'"
    and len: "length buf' = length ?buf1"
    and bits: "\<And>j k. j < length ?buf1 \<Longrightarrow>
          bit (buf' ! j) k = (bit (?buf1 ! j) k
             \<or> (\<exists>b \<in> set bits. b div 8 = j \<and> b mod 8 = k \<and> tdo_sample ret (r + 2 * b)))"
    by blast
  have one: "bit (?buf1 ! j) k
      = (bit (buf ! j) k \<or> (b div 8 = j \<and> b mod 8 = k \<and> tdo_sample ret (r + 2 * b)))"
    if "j < length buf" for j k
  proof (cases "j = b div 8")
    case True
    with that have eq: "?buf1 ! j
        = buf ! j OR push_bit (b mod 8) (of_bool (tdo_sample ret (r + 2 * b)))"
      by (simp only: nth_list_update_eq tdo_sample_def)
    show ?thesis
      unfolding eq bit_decode_update using True by auto
  next
    case False
    then show ?thesis by auto
  qed
  have "decode_bits ret (Some r) (b # bits) buf = Inr buf'"
    using inb dec by simp
  moreover have "length buf' = length buf"
    using len by simp
  moreover have "bit (buf' ! j) k = (bit (buf ! j) k
      \<or> (\<exists>b' \<in> set (b # bits). b' div 8 = j \<and> b' mod 8 = k \<and> tdo_sample ret (r + 2 * b')))"
    if "j < length buf" for j k
    using that bits [of j k] one [of j k] by auto
  ultimately show ?case by blast
qed

lemma decode_all:
  assumes "r + 2 * n \<le> length ret + 1"
  shows "\<exists>buf'. decode_bits ret (Some r) [0..<n] (replicate (ceil8 n) 0) = Inr buf'
     \<and> length buf' = ceil8 n
     \<and> (\<forall>j k. j < ceil8 n \<longrightarrow>
          bit (buf' ! j) k = (k < 8 \<and> 8 * j + k < n \<and> tdo_sample ret (r + 2 * (8 * j + k))))"
proof -
  have "\<forall>b \<in> set [0..<n]. b div 8 < length (replicate (ceil8 n) (0::int)) \<and> r + 2 * b < length ret"
    using assms by (auto simp: ceil8_def)
  from decode_bits_ok [OF this] obtain buf' where
    dec: "decode_bits ret (Some r) [0..<n] (replicate (ceil8 n) 0) = Inr buf'"
    and len: "length buf' = ceil8 n"
    and bits: "\<And>j k. j < ceil8 n \<Longrightarrow>
          bit (buf' ! j) k = (\<exists>b \<in> set [0..<n]. b div 8 = j \<and> b mod 8 = k \<and> tdo_sample ret (r + 2 * b))"
    by auto
  have "bit (buf' ! j) k = (k < 8 \<and> 8 * j + k < n \<and> tdo_sample ret (r + 2 * (8 * j + k)))"
    if "j < ceil8 n" for j k
  proof -
    have "(\<exists>b \<in> set [0..<n]. b div 8 = j \<and> b mod 8 = k \<and> tdo_sample ret (r + 2 * b))
        = (k < 8 \<and> 8 * j + k < n \<and> tdo_sample ret (r + 2 * (8 * j + k)))"
    proof
      assume "\<exists>b \<in> set [0..<n]. b div 8 = j \<and> b mod 8 = k \<and> tdo_sample ret (r + 2 * b)"
      then obtain b where b: "b < n" "b div 8 = j" "b mod 8 = k" "tdo_sample ret (r + 2 * b)"
        by auto
      from b(2,3) have "b = 8 * j + k" by auto
      with b show "k < 8 \<and> 8 * j + k < n \<and> tdo_sample ret (r + 2 * (8 * j + k))"
        by auto
    next
      assume "k < 8 \<and> 8 * j + k < n \<and> tdo_sample ret (r + 2 * (8 * j + k))"
      then show "\<exists>b \<in> set [0..<n]. b div 8 = j \<and> b mod 8 = k \<and> tdo_sample ret (r + 2 * b)"
        by (intro bexI [of _ "8 * j + k"]) auto
    qed
    with bits [OF that] show ?thesis by simp
  qed
  with dec len show ?thesis by blast
qed

lemma nbits_pos: "0 < snd (instr_value instr)"
  by (cases instr) simp_all

lemma length_stream: "length (0 # cells (frame irvalue nbits data)) = 37 + 2 * nbits"
  by (simp add: length_cells length_frame)

lemma jtag_command_sim:
  assumes "payload_bytes (snd (instr_value instr)) data = Inr bs"
  shows "jtag_command sim_transport instr data (resp, out) =
     (case decode_bits (take (37 + 2 * snd (instr_value instr)) resp) (Some 33)
             [0..<snd (instr_value instr)] (replicate (ceil8 (snd (instr_value instr))) 0) of
        Inl e \<Rightarrow> Raises e (drop (37 + 2 * snd (instr_value instr)) resp,
                   out @ 0 # cells (frame (fst (instr_value instr)) (snd (instr_value instr)) bs))
      | Inr bytes \<Rightarrow> Returns bytes (drop (37 + 2 * snd (instr_value instr)) resp,
                   out @ 0 # cells (frame (fst (instr_value instr)) (snd (instr_value instr)) bs)))"
proof -
  let ?n = "snd (instr_value instr)"
  let ?stream = "0 # cells (frame (fst (instr_value instr)) ?n bs)"
  have st: "jtag_stream (fst (instr_value instr)) ?n bs = (?stream, Some 33)"
    by (rule jtag_stream_eq [OF nbits_pos])
  from transfer_sim [OF stream_bytes, of "fst (instr_value instr)" ?n bs 0 "[]" resp out]
  obtain rd where rd: "transfer sim_transport ?stream (py_range 0 (length ?stream) CHUNK_SIZE) []
        (resp, out) = Returns rd (drop (length ?stream) resp, out @ ?stream)"
    and cat: "concat rd = take (length ?stream) resp"
    by auto
  have fl: "dev_flush sim_transport (resp, out) = Returns () (resp, out)"
    by (simp add: sim_transport_def)
  have len: "length ?stream = 37 + 2 * ?n"
    by (rule length_stream)
  show ?thesis
    using rd cat fl unfolding len
    by (simp add: jtag_command_def Let_def assms st len del: list.size)
qed

lemma emitted_sim:
  assumes "payload_bytes (snd (instr_value instr)) data = Inr bs"
  shows "emitted (jtag_command sim_transport instr data (resp, out))
     = out @ 0 # cells (frame (fst (instr_value instr)) (snd (instr_value instr)) bs)"
  unfolding emitted_def jtag_command_sim [OF assms]
  by (simp split: sum.splits)

lemma emitted_sim_error:
  assumes "payload_bytes (snd (instr_value instr)) data = Inl e"
  shows "jtag_command sim_transport instr data d = Raises e d"
  by (simp add: jtag_command_def Let_def assms)

lemma frame_post_edge:
  assumes "b \<in> set (frame irvalue nbits data)"
  shows "b + TCK = b OR TCK"
proof -
  from assms frame_levels have "b \<in> {0, 4, 16, 20}" by blast
  then show ?thesis by (auto simp: line_values)
qed

lemma length_byte_bits: "length (byte_bits b) = 8"
  by (simp add: byte_bits_def)

lemma nth_concat_byte_bits:
  "i < 8 * length bs \<Longrightarrow> concat (map byte_bits bs) ! i = bit (bs ! (i div 8)) (i mod 8)"
proof (induction bs arbitrary: i)
  case Nil
  then show ?case by simp
next
  case (Cons b bs)
  show ?case
  proof (cases "i < 8")
    case True
    then show ?thesis
      by (simp add: nth_append length_byte_bits) (simp add: byte_bits_def)
  next
    case False
    then have i: "i = (i - 8) + 8" by simp
    from False Cons.prems have "i - 8 < 8 * length bs" by simp
    from Cons.IH [OF this] have "concat (map byte_bits bs) ! (i - 8)
        = bit (bs ! ((i - 8) div 8)) (i mod 8)"
      by (metis i mod_add_self2)
    moreover from False have "i div 8 = Suc ((i - 8) div 8)"
      by (metis i div_add_self2 Suc_eq_plus1 zero_neq_numeral)
    ultimately show ?thesis
      using False by (simp add: nth_append length_byte_bits)
  qed
qed

lemma length_concat_byte_bits: "length (concat (map byte_bits bs)) = 8 * length bs"
  by (induction bs) (simp_all add: length_byte_bits)

lemma length_payload_bits: "length (payload_bits n bs) = n"
  by (simp add: payload_bits_def)

lemma nth_payload_bits: "i < n \<Longrightarrow> payload_bits n bs ! i = payload_bit bs i"
proof (cases "i < 8 * length bs")
  case True
  assume "i < n"
  with True show ?thesis
    by (simp add: payload_bits_def nth_append length_concat_byte_bits nth_concat_byte_bits
        payload_bit_def less_mult_imp_div_less mult.commute)
next
  case False
  assume "i < n"
  moreover from False have "\<not> i div 8 < length bs"
    by (metis mult.commute div_less_iff_less_mult zero_less_numeral)
  ultimately show ?thesis
    using False by (simp add: payload_bits_def nth_append length_concat_byte_bits payload_bit_def)
qed

lemma dr_cells_stream:
  "dr_cells n (0 # cells (frame irvalue n bs))
     = cells (map (\<lambda>i. tdi_of (payload_bits n bs ! i) OR (if Suc i = n then TMS else 0)) [0..<n])"
proof -
  define A where "A = replicate 2 0 @ [TMS, TMS, 0, 0]
     @ map (\<lambda>j. tdi_of (bit irvalue j) OR (if Suc j = 4 then TMS else 0)) [0..<4]
     @ [TMS, 0, TMS, 0, 0]"
  define D where "D = map (\<lambda>i. tdi_of (payload_bit bs i) OR (if Suc i = n then TMS else 0)) [0..<n]"
  have f: "frame irvalue n bs = A @ D @ [TMS, 0, 0]"
    by (simp add: frame_def A_def D_def)
  have la: "length (cells A) = 30"
    by (simp add: length_cells A_def)
  have ld: "length (cells D) = 2 * n"
    by (simp add: length_cells D_def)
  have "dr_cells n (0 # cells (frame irvalue n bs)) = cells D"
    unfolding dr_cells_def f cells_append using la ld by simp
  also have "D = map (\<lambda>i. tdi_of (payload_bits n bs ! i) OR (if Suc i = n then TMS else 0)) [0..<n]"
    by (simp add: nth_payload_bits D_def)
  finally show ?thesis .
qed

lemma decode_bits_shape:
  assumes "decode_bits ret ri bits buf = Inr buf'"
  shows "length buf' = length buf
     \<and> (\<forall>j k. j < length buf \<and> bit (buf' ! j) k \<longrightarrow>
            bit (buf ! j) k \<or> (\<exists>b \<in> set bits. b div 8 = j \<and> b mod 8 = k))"
  using assms
proof (induction bits arbitrary: buf)
  case Nil
  then show ?case by simp
next
  case (Cons b bits)
  from Cons.prems obtain r where ri: "ri = Some r" and inb: "b div 8 < length buf"
    by (auto split: if_splits option.splits)
  let ?buf1 = "buf[b div 8 := buf ! (b div 8)
      OR push_bit (b mod 8) (of_bool (ret ! (r + 2 * b) AND TDO \<noteq> 0))]"
  from Cons.prems ri inb have dec: "decode_bits ret ri bits ?buf1 = Inr buf'"
    by (auto split: if_splits)
  from Cons.IH [OF dec] have len: "length buf' = length buf"
    and bits: "\<And>j k. j < length buf \<Longrightarrow> bit (buf' ! j) k \<Longrightarrow>
        bit (?buf1 ! j) k \<or> (\<exists>b \<in> set bits. b div 8 = j \<and> b mod 8 = k)"
    by simp_all
  have one: "bit (buf ! j) k \<or> (b div 8 = j \<and> b mod 8 = k)"
    if "j < length buf" "bit (?buf1 ! j) k" for j k
  proof (cases "j = b div 8")
    case True
    with that(1) have eq: "?buf1 ! j
        = buf ! j OR push_bit (b mod 8) (of_bool (ret ! (r + 2 * b) AND TDO \<noteq> 0))"
      by (simp only: nth_list_update_eq)
    from that(2) show ?thesis
      unfolding eq bit_decode_update using True by auto
  next
    case False
    with that show ?thesis by auto
  qed
  have "bit (buf ! j) k \<or> (\<exists>b' \<in> set (b # bits). b' div 8 = j \<and> b' mod 8 = k)"
    if "j < length buf" "bit (buf' ! j) k" for j k
    using bits [OF that] one [OF that(1)] by auto
  with len show ?case by blast
qed

lemma jtag_command_returns:
  assumes "jtag_command T instr data d = Returns buf d'"
  shows "\<exists>ret ri. decode_bits ret ri [0..<snd (instr_value instr)]
            (replicate (ceil8 (snd (instr_value instr))) 0) = Inr buf"
  using assms unfolding jtag_command_def Let_def
  by (auto split: sum.splits prod.splits outcome.splits)

lemma result_shape_any:
  assumes "jtag_command T instr data d = Returns buf d'"
  shows "length buf = ceil8 (snd (instr_value instr))
     \<and> (\<forall>j k. j < length buf \<and> bit (buf ! j) k \<longrightarrow> k < 8 \<and> 8 * j + k < snd (instr_value instr))"
proof -
  let ?n = "snd (instr_value instr)"
  from jtag_command_returns [OF assms] obtain ret ri where
    "decode_bits ret ri [0..<?n] (replicate (ceil8 ?n) 0) = Inr buf"
    by blast
  from decode_bits_shape [OF this] have len: "length buf = ceil8 ?n"
    and bits: "\<And>j k. j < ceil8 ?n \<Longrightarrow> bit (buf ! j) k \<Longrightarrow>
        (\<exists>b \<in> set [0..<?n]. b div 8 = j \<and> b mod 8 = k)"
    by auto
  have "k < 8 \<and> 8 * j + k < ?n" if "j < length buf" "bit (buf ! j) k" for j k
  proof -
    from that len bits [of j k] obtain b where "b < ?n" "b div 8 = j" "b mod 8 = k"
      by auto
    moreover from this have "b = 8 * j + k" by auto
    ultimately show ?thesis by auto
  qed
  with len show ?thesis by blast
qed

lemma jtag_command_sim_returns:
  assumes pb: "payload_bytes (snd (instr_value instr)) data = Inr bs"
    and len: "32 + 2 * snd (instr_value instr) \<le> length resp"
  shows "\<exists>buf. jtag_command sim_transport instr data (resp, out)
       = Returns buf (drop (37 + 2 * snd (instr_value instr)) resp,
            out @ 0 # cells (frame (fst (instr_value instr)) (snd (instr_value instr)) bs))
     \<and> length buf = ceil8 (snd (instr_value instr))
     \<and> (\<forall>j k. j < ceil8 (snd (instr_value instr)) \<longrightarrow>
          bit (buf ! j) k = (k < 8 \<and> 8 * j + k < snd (instr_value instr)
             \<and> tdo_sample resp (33 + 2 * (8 * j + k))))"
proof -
  let ?n = "snd (instr_value instr)"
  let ?ret = "take (37 + 2 * ?n) resp"
  from len have "33 + 2 * ?n \<le> length ?ret + 1" by simp
  from decode_all [OF this] obtain buf where
    dec: "decode_bits ?ret (Some 33) [0..<?n] (replicate (ceil8 ?n) 0) = Inr buf"
    and l: "length buf = ceil8 ?n"
    and bits: "\<And>j k. j < ceil8 ?n \<Longrightarrow>
          bit (buf ! j) k = (k < 8 \<and> 8 * j + k < ?n \<and> tdo_sample ?ret (33 + 2 * (8 * j + k)))"
    by blast
  have t: "tdo_sample ?ret (33 + 2 * i) = tdo_sample resp (33 + 2 * i)" if "i < ?n" for i
    using that by (simp add: tdo_sample_def)
  have "bit (buf ! j) k = (k < 8 \<and> 8 * j + k < ?n \<and> tdo_sample resp (33 + 2 * (8 * j + k)))"
    if j: "j < ceil8 ?n" for j k
  proof (cases "8 * j + k < ?n")
    case True
    from bits [OF j, of k] t [OF True] show ?thesis by simp
  next
    case False
    with bits [OF j, of k] show ?thesis by simp
  qed
  with dec l show ?thesis
    by (simp add: jtag_command_sim [OF pb])
qed

lemma cells_pair: "i < length xs \<Longrightarrow> take 2 (drop (2 * i) (cells xs)) = cell (xs ! i)"
proof (induction xs arbitrary: i)
  case Nil
  then show ?case by simp
next
  case (Cons x xs)
  show ?case
  proof (cases i)
    case 0
    then show ?thesis by (simp add: cells_Cons cell_def)
  next
    case (Suc i')
    with Cons.prems have "i' < length xs" by simp
    from Cons.IH [OF this] Suc show ?thesis
      by (simp add: cells_Cons cell_def)
  qed
qed

lemma dr_cell_at:
  assumes "i < n"
  shows "slice (0 # cells (frame irvalue n bs)) (31 + 2 * i) (33 + 2 * i)
     = cell (tdi_of (payload_bit bs i) OR (if Suc i = n then TMS else 0))"
proof -
  let ?stream = "0 # cells (frame irvalue n bs)"
  let ?D = "map (\<lambda>i. tdi_of (payload_bits n bs ! i) OR (if Suc i = n then TMS else 0)) [0..<n]"
  have a: "33 + 2 * i - (31 + 2 * i) = 2"
    by simp
  have "slice ?stream (31 + 2 * i) (33 + 2 * i) = take 2 (drop (31 + 2 * i) ?stream)"
    unfolding slice_def a ..
  also have "drop (31 + 2 * i) ?stream = drop (2 * i) (drop 31 ?stream)"
    by (simp only: drop_drop add.commute)
  also have "take 2 (drop (2 * i) (drop 31 ?stream))
      = take 2 (drop (2 * i) (take (2 * n) (drop 31 ?stream)))"
    using assms by (simp add: drop_take)
  also have "take (2 * n) (drop 31 ?stream) = cells ?D"
    using dr_cells_stream [of n irvalue bs] by (simp add: dr_cells_def)
  also have "take 2 (drop (2 * i) (cells ?D)) = cell (?D ! i)"
    using assms by (intro cells_pair) simp
  also have "?D ! i = tdi_of (payload_bit bs i) OR (if Suc i = n then TMS else 0)"
    using assms by (simp add: nth_payload_bits)
  finally show ?thesis .
qed

lemma pack_bits_nth:
  assumes "i < length bs"
  shows "bit (pack_bits bs ! (i div 8)) (i mod 8) = bs ! i"
proof -
  from assms have "i div 8 < ceil8 (length bs)"
    by (simp add: ceil8_def)
  from bit_pack_bits [OF this, of "i mod 8"] assms show ?thesis
    by simp
qed

lemma pack_bits_eqI:
  assumes len: "length buf = ceil8 (length bs)"
    and bits: "\<And>j k. j < ceil8 (length bs) \<Longrightarrow>
        bit (buf ! j) k = (k < 8 \<and> 8 * j + k < length bs \<and> bs ! (8 * j + k))"
  shows "buf = pack_bits bs"
proof (rule nth_equalityI)
  show "length buf = length (pack_bits bs)"
    by (simp add: len length_pack_bits)
next
  fix j
  assume "j < length buf"
  with len have j: "j < ceil8 (length bs)" by simp
  show "buf ! j = pack_bits bs ! j"
    by (rule bit_eqI) (simp add: bits [OF j] bit_pack_bits [OF j])
qed

lemma bit_digit:
  "bit ((v div 256 ^ j) mod 256) k = (k < 8 \<and> bit v (8 * j + k))" for v :: int
proof -
  have "(256::int) ^ j = 2 ^ (8 * j)"
    by (simp add: power_mult)
  then have "(v div 256 ^ j) mod 256 = take_bit 8 (drop_bit (8 * j) v)"
    by (simp add: take_bit_eq_mod drop_bit_eq_div)
  then show ?thesis
    by (simp add: bit_take_bit_iff bit_drop_bit_eq)
qed

lemma le_ceil8: "n \<le> 8 * ceil8 n"
  by (simp add: ceil8_def)

lemma payload_bits_to_bytes:
  assumes "to_bytes v (ceil8 n) = Inr bs"
  shows "payload_bits n bs = map (bit v) [0..<n]"
proof (rule nth_equalityI)
  show "length (payload_bits n bs) = length (map (bit v) [0..<n])"
    by (simp add: length_payload_bits)
next
  fix i
  assume "i < length (payload_bits n bs)"
  then have i: "i < n" by (simp add: length_payload_bits)
  from assms have bs: "bs = map (\<lambda>i. (v div 256 ^ i) mod 256) [0..<ceil8 n]"
    by (simp add: to_bytes_def split: if_splits)
  from i le_ceil8 [of n] have d: "i div 8 < ceil8 n"
    by (simp add: div_less_iff_less_mult mult.commute)
  have "payload_bits n bs ! i = payload_bit bs i"
    by (rule nth_payload_bits [OF i])
  also have "\<dots> = bit v (8 * (i div 8) + i mod 8)"
    using d by (simp add: payload_bit_def bs bit_digit)
  also have "\<dots> = bit v i"
    by simp
  finally show "payload_bits n bs ! i = map (bit v) [0..<n] ! i"
    using i by simp
qed

lemma overflow_raises:
  assumes "v < 0 \<or> 256 ^ ceil8 (snd (instr_value instr)) \<le> v"
  shows "jtag_command T instr (PInt v) d = Raises OverflowError d"
  using assms by (auto simp: jtag_command_def to_bytes_def)

section \<open>Claims about the codec\<close>

text \<open>
  C2 (frame size), as the program has it. The stream handed to the transport is one
  leading byte \<open>0\<close> (the stream starts as \<^verbatim>\<open>[0]\<close>) followed by two bytes for each cell:
  the line levels, then the same levels with \<open>TCK\<close> raised. There are 14 preamble and
  postamble cells and \<open>4 + n\<close> bit-cells, so the stream holds \<open>1 + 2 * (14 + (4 + n))\<close>
  bytes, one more than twice the number of cells.
\<close>

theorem frame_size:
  assumes "payload_bytes (snd (instr_value instr)) data = Inr bs"
  shows "emitted (jtag_command sim_transport instr data (resp, []))
           = 0 # cells (frame (fst (instr_value instr)) (snd (instr_value instr)) bs)
       \<and> length (frame (fst (instr_value instr)) (snd (instr_value instr)) bs)
           = 14 + (4 + snd (instr_value instr))
       \<and> (\<forall>b \<in> set (frame (fst (instr_value instr)) (snd (instr_value instr)) bs).
             cell b = [b, b OR TCK])
       \<and> length (emitted (jtag_command sim_transport instr data (resp, [])))
           = 1 + 2 * (14 + (4 + snd (instr_value instr)))"
proof -
  have "cell b = [b, b OR TCK]"
    if "b \<in> set (frame (fst (instr_value instr)) (snd (instr_value instr)) bs)" for b
    using frame_post_edge [OF that] by (simp add: cell_def)
  then show ?thesis
    by (simp add: emitted_sim [OF assms] length_cells length_frame)
qed

theorem frame_size_witness:
  "payload_bytes (snd (instr_value AVR_RESET)) (PInt 1) = Inr [1]
   \<and> emitted (jtag_command sim_transport AVR_RESET (PInt 1) ([], []))
       = [0, 0, 32, 0, 32, 16, 48, 16, 48, 0, 32, 0, 32, 0, 32, 0, 32, 4, 36, 20, 52,
          16, 48, 0, 32, 16, 48, 0, 32, 0, 32, 20, 52, 16, 48, 0, 32, 0, 32]
   \<and> length (emitted (jtag_command sim_transport AVR_RESET (PInt 1) ([], []))) = 39"
proof -
  have h: "payload_bytes (snd (instr_value AVR_RESET)) (PInt 1) = Inr [1]"
    by (simp add: to_bytes_def ceil8_def)
  have f: "0 # cells (frame (fst (instr_value AVR_RESET)) (snd (instr_value AVR_RESET)) [1])
      = [0, 0, 32, 0, 32, 16, 48, 16, 48, 0, 32, 0, 32, 0, 32, 0, 32, 4, 36, 20, 52,
          16, 48, 0, 32, 16, 48, 0, 32, 0, 32, 20, 52, 16, 48, 0, 32, 0, 32]"
    by (simp add: frame_def cells_def cell_def tdi_of_def payload_bit_def line_values
        upt_conv_Cons numeral_2_eq_2 del: upt_Suc)
  from frame_size [OF h, of "[]"] show ?thesis
    using h f by simp
qed

text \<open>
  C2 as stated fails: the stream for \<open>AVR_RESET\<close> has 39 bytes, which is not twice any
  number of cells.
\<close>

theorem frame_size_counterexample:
  "\<not> (\<exists>ncells. length (emitted (jtag_command sim_transport AVR_RESET (PInt 1) ([], [])))
         = 2 * ncells)"
proof -
  have h: "payload_bytes (snd (instr_value AVR_RESET)) (PInt 1) = Inr [1]"
    by (simp add: to_bytes_def ceil8_def)
  have "length (emitted (jtag_command sim_transport AVR_RESET (PInt 1) ([], []))) = 39"
    by (simp add: emitted_sim [OF h] length_cells length_frame)
  then show ?thesis by presburger
qed

text \<open>
  C10 (output-line invariant). Every byte of the stream \<^verbatim>\<open>jtag_command\<close> builds, and so
  every byte written to the transport, uses only the \<open>TMS\<close>, \<open>TDI\<close> and \<open>TCK\<close>
  positions; bit 3, the \<open>TDO\<close> input, is never set. This holds for every instruction
  and payload (an integer payload that does not convert raises before anything is
  written).
\<close>

theorem output_lines:
  "(\<forall>b \<in> set (fst (jtag_stream (fst (instr_value instr)) (snd (instr_value instr)) bs)).
      b AND (TMS OR TDI OR TCK) = b \<and> b AND TDO = 0 \<and> \<not> bit b 3)
   \<and> (\<forall>b \<in> set (emitted (jtag_command sim_transport instr data (resp, []))).
      b AND (TMS OR TDI OR TCK) = b \<and> b AND TDO = 0 \<and> \<not> bit b 3)"
proof
  have ok: "b AND (TMS OR TDI OR TCK) = b \<and> b AND TDO = 0 \<and> \<not> bit b 3"
    if "b \<in> {0, 4, 16, 20, 32, 36, 48, 52}" for b :: int
    using that by (auto simp: line_values bit_iff_odd)
  show "\<forall>b \<in> set (fst (jtag_stream (fst (instr_value instr)) (snd (instr_value instr)) bs)).
      b AND (TMS OR TDI OR TCK) = b \<and> b AND TDO = 0 \<and> \<not> bit b 3"
    unfolding jtag_stream_eq [OF nbits_pos] fst_conv
    using stream_levels ok by blast
  show "\<forall>b \<in> set (emitted (jtag_command sim_transport instr data (resp, []))).
      b AND (TMS OR TDI OR TCK) = b \<and> b AND TDO = 0 \<and> \<not> bit b 3"
  proof (cases "payload_bytes (snd (instr_value instr)) data")
    case (Inl e)
    then show ?thesis
      by (simp add: emitted_sim_error emitted_def)
  next
    case (Inr bs')
    from stream_levels ok show ?thesis
      unfolding emitted_sim [OF Inr] by (simp only: append_Nil) blast
  qed
qed

theorem output_lines_witness:
  "emitted (jtag_command sim_transport AVR_RESET (PInt 1) ([], [])) \<noteq> []
   \<and> list_all (\<lambda>b. b AND (TMS OR TDI OR TCK) = b \<and> b AND TDO = 0 \<and> \<not> bit b 3)
         (emitted (jtag_command sim_transport AVR_RESET (PInt 1) ([], [])))"
proof -
  have h: "payload_bytes (snd (instr_value AVR_RESET)) (PInt 1) = Inr [1]"
    by (simp add: to_bytes_def ceil8_def)
  have "emitted (jtag_command sim_transport AVR_RESET (PInt 1) ([], [])) \<noteq> []"
    by (simp add: emitted_sim [OF h])
  moreover from output_lines [of AVR_RESET _ "PInt 1" "[]", THEN conjunct2]
  have "list_all (\<lambda>b. b AND (TMS OR TDI OR TCK) = b \<and> b AND TDO = 0 \<and> \<not> bit b 3)
         (emitted (jtag_command sim_transport AVR_RESET (PInt 1) ([], [])))"
    unfolding list_all_iff .
  ultimately show ?thesis by (rule conjI)
qed

text \<open>
  C1 (round-trip decode). \<open>r\<close> is the start position the program records: what
  \<^verbatim>\<open>clock_in\<close> returns for the first data-register cell, the index that follows the
  two bytes of that cell (last conjunct). In synchronous bit-bang mode the byte read at
  an index is the sample of the lines as the byte written just before left them, so
  \<open>r + 2 * i\<close> is where the sample taken after the rising edge of cell \<open>i\<close> arrives.
  A simulated transport that answers with the chosen pattern on the \<open>TDO\<close> line at
  these positions makes \<^verbatim>\<open>jtag_command\<close> return exactly the pattern, packed
  least-significant-bit-first into \<open>ceil(n / 8)\<close> bytes: bit \<open>i mod 8\<close> of byte
  \<open>i div 8\<close> of the result is bit \<open>i\<close> of the pattern.
\<close>

theorem round_trip:
  assumes pb: "payload_bytes (snd (instr_value instr)) data = Inr bs"
    and start: "snd (jtag_stream (fst (instr_value instr)) (snd (instr_value instr)) bs) = Some r"
    and len: "length pattern = snd (instr_value instr)"
    and resp: "r + 2 * (snd (instr_value instr) - 1) < length resp"
    and echo: "\<forall>i < snd (instr_value instr). tdo_sample resp (r + 2 * i) = pattern ! i"
  shows "(\<exists>st. jtag_command sim_transport instr data (resp, out) = Returns (pack_bits pattern) st)
     \<and> length (pack_bits pattern) = ceil8 (snd (instr_value instr))
     \<and> (\<forall>i < snd (instr_value instr). bit (pack_bits pattern ! (i div 8)) (i mod 8) = pattern ! i)
     \<and> (\<forall>i < snd (instr_value instr).
          slice (fst (jtag_stream (fst (instr_value instr)) (snd (instr_value instr)) bs))
              (r + 2 * i - 2) (r + 2 * i)
            = cell (tdi_of (payload_bit bs i) OR (if Suc i = snd (instr_value instr) then TMS else 0)))"
proof -
  let ?n = "snd (instr_value instr)"
  have st: "jtag_stream (fst (instr_value instr)) ?n bs
      = (0 # cells (frame (fst (instr_value instr)) ?n bs), Some 33)"
    by (rule jtag_stream_eq [OF nbits_pos])
  with start have r: "r = 33" by simp
  from resp r nbits_pos [of instr] have "32 + 2 * ?n \<le> length resp" by simp
  from jtag_command_sim_returns [OF pb this, of out] obtain buf st where
    ret: "jtag_command sim_transport instr data (resp, out) = Returns buf st"
    and l: "length buf = ceil8 ?n"
    and bits: "\<And>j k. j < ceil8 ?n \<Longrightarrow>
          bit (buf ! j) k = (k < 8 \<and> 8 * j + k < ?n \<and> tdo_sample resp (33 + 2 * (8 * j + k)))"
    by blast
  have "buf = pack_bits pattern"
  proof (rule pack_bits_eqI)
    show "length buf = ceil8 (length pattern)"
      by (simp add: l len)
  next
    fix j k
    assume "j < ceil8 (length pattern)"
    then have j: "j < ceil8 ?n" by (simp add: len)
    show "bit (buf ! j) k = (k < 8 \<and> 8 * j + k < length pattern \<and> pattern ! (8 * j + k))"
    proof (cases "8 * j + k < ?n")
      case True
      with echo r have "tdo_sample resp (33 + 2 * (8 * j + k)) = pattern ! (8 * j + k)"
        by blast
      with bits [OF j, of k] show ?thesis by (simp add: len)
    next
      case False
      with bits [OF j, of k] show ?thesis by (simp add: len)
    qed
  qed
  with ret have "\<exists>st. jtag_command sim_transport instr data (resp, out)
      = Returns (pack_bits pattern) st"
    by blast
  moreover have "length (pack_bits pattern) = ceil8 ?n"
    by (simp add: length_pack_bits len)
  moreover have "\<forall>i < ?n. bit (pack_bits pattern ! (i div 8)) (i mod 8) = pattern ! i"
    by (simp add: pack_bits_nth len)
  moreover have "\<forall>i < ?n. slice (fst (jtag_stream (fst (instr_value instr)) ?n bs))
              (r + 2 * i - 2) (r + 2 * i)
            = cell (tdi_of (payload_bit bs i) OR (if Suc i = ?n then TMS else 0))"
    using dr_cell_at [of _ ?n "fst (instr_value instr)" bs] by (simp add: st r)
  ultimately show ?thesis by blast
qed

theorem round_trip_witness:
  "payload_bytes (snd (instr_value PROG_COMMANDS)) (PInt 0x3700) = Inr [0x00, 0x37]
   \<and> snd (jtag_stream (fst (instr_value PROG_COMMANDS)) (snd (instr_value PROG_COMMANDS)) [0x00, 0x37])
       = Some 33
   \<and> (\<exists>st. jtag_command sim_transport PROG_COMMANDS (PInt 0x3700)
         (map (\<lambda>k. if 33 \<le> k \<and> odd k
                 \<and> [True, False, True, True, False, False, True, False,
                      False, True, False, False, False, False, True] ! ((k - 33) div 2)
               then TDO else 0) [0..<67], [])
       = Returns [0x4D, 0x42] st)"
proof -
  define pattern where "pattern = [True, False, True, True, False, False, True, False,
                      False, True, False, False, False, False, True]"
  define resp where "resp = map (\<lambda>k. if 33 \<le> k \<and> odd k \<and> pattern ! ((k - 33) div 2)
               then TDO else 0) [0..<67]"
  have pb: "payload_bytes (snd (instr_value PROG_COMMANDS)) (PInt 0x3700) = Inr [0x00, 0x37]"
    by (simp add: to_bytes_def ceil8_def upt_conv_Cons del: upt_Suc)
  have start: "snd (jtag_stream (fst (instr_value PROG_COMMANDS)) (snd (instr_value PROG_COMMANDS))
      [0x00, 0x37]) = Some 33"
    by (simp add: jtag_stream_eq)
  have len: "length pattern = snd (instr_value PROG_COMMANDS)"
    by (simp add: pattern_def)
  have long: "33 + 2 * (snd (instr_value PROG_COMMANDS) - 1) < length resp"
    by (simp add: resp_def)
  have echo: "\<forall>i < snd (instr_value PROG_COMMANDS). tdo_sample resp (33 + 2 * i) = pattern ! i"
    by (simp add: resp_def tdo_sample_def line_values)
  have packed: "pack_bits pattern = [0x4D, 0x42]"
    by (simp add: pack_bits_def ceil8_def pattern_def upt_conv_Cons del: upt_Suc)
  from round_trip [OF pb start len long echo, of "[]"] packed
  have "\<exists>st. jtag_command sim_transport PROG_COMMANDS (PInt 0x3700) (resp, []) = Returns [0x4D, 0x42] st"
    by simp
  with pb start show ?thesis
    unfolding resp_def pattern_def by (intro conjI)
qed

text \<open>
  C9 (result shape), as the program has it. Whatever the transport, a buffer that
  \<^verbatim>\<open>jtag_command\<close> returns has \<open>ceil(n / 8)\<close> bytes, and a bit of it that is set is
  bit \<open>k < 8\<close> of byte \<open>j\<close> with \<open>8 * j + k < n\<close>: every position from \<open>n\<close> on is zero.
  It does return one when the response reaches the last sample, that is, holds at
  least \<open>32 + 2 * n\<close> bytes.
\<close>

theorem result_shape:
  "(jtag_command T instr data d = Returns buf d' \<longrightarrow>
      length buf = ceil8 (snd (instr_value instr))
      \<and> (\<forall>j k. j < length buf \<and> bit (buf ! j) k \<longrightarrow> k < 8 \<and> 8 * j + k < snd (instr_value instr)))
   \<and> (payload_bytes (snd (instr_value instr)) data = Inr bs
        \<and> 32 + 2 * snd (instr_value instr) \<le> length resp \<longrightarrow>
      (\<exists>buf' st. jtag_command sim_transport instr data (resp, out) = Returns buf' st))"
  using result_shape_any [of T instr data d buf d']
    jtag_command_sim_returns [of instr data bs resp out]
  by blast

theorem result_shape_witness:
  "payload_bytes (snd (instr_value AVR_RESET)) (PInt 1) = Inr [1]
   \<and> (\<exists>buf st. jtag_command sim_transport AVR_RESET (PInt 1) (replicate 34 8, []) = Returns buf st
         \<and> length buf = 1 \<and> \<not> bit (buf ! 0) 1)"
proof -
  have pb: "payload_bytes (snd (instr_value AVR_RESET)) (PInt 1) = Inr [1]"
    by (simp add: to_bytes_def ceil8_def)
  have len: "32 + 2 * snd (instr_value AVR_RESET) \<le> length (replicate 34 (8::int))"
    by simp
  from result_shape [of sim_transport AVR_RESET "PInt 1" _ _ _ "[1]" "replicate 34 8" "[]"] pb len
  obtain buf st where
    ret: "jtag_command sim_transport AVR_RESET (PInt 1) (replicate 34 8, []) = Returns buf st"
    by blast
  note sh = result_shape [of sim_transport AVR_RESET "PInt 1" "(replicate 34 8, [])" buf st
      "[1]" "[]" "[]", THEN conjunct1, rule_format, OF ret]
  from sh have l: "length buf = 1"
    by (simp add: ceil8_def)
  from sh have hb: "\<And>j k. j < length buf \<Longrightarrow> bit (buf ! j) k
      \<Longrightarrow> 8 * j + k < snd (instr_value AVR_RESET)"
    by blast
  from hb [of 0 1] l have "\<not> bit (buf ! 0) 1"
    by auto
  with ret pb l show ?thesis by blast
qed

text \<open>
  C9 as stated fails for a response that is too short: the program has no guard, and
  \<^verbatim>\<open>ret[retindex + 2 * bit]\<close> raises \<^verbatim>\<open>IndexError\<close> after the stream has been written.
\<close>

theorem result_shape_counterexample:
  "jtag_command sim_transport AVR_RESET (PInt 1) ([], [])
     = Raises IndexError ([], 0 # cells (frame 0xC 1 [1]))"
proof -
  have pb: "payload_bytes (snd (instr_value AVR_RESET)) (PInt 1) = Inr [1]"
    by (simp add: to_bytes_def ceil8_def)
  show ?thesis
    by (simp add: jtag_command_sim [OF pb] ceil8_def)
qed

text \<open>
  C8 (payload handling), as the program has it. For a byte sequence of any length the
  data-register cells carry \<open>payload_bits n bs\<close>: the bits of the sequence, least
  significant first within each byte and the bytes in order, padded with zeros or cut
  to \<open>n\<close> bits, and no error comes of a sequence that is too long. An integer
  \<open>0 \<le> v < 256 ^ ceil(n / 8)\<close> is first turned into a byte sequence whose bits are
  the bits of \<open>v\<close>. Every other integer, negative or of \<open>256 ^ ceil(n / 8)\<close> or more,
  raises \<^verbatim>\<open>OverflowError\<close> on any transport and leaves the device as it was: nothing
  is written.
\<close>

theorem payload_handling:
  "dr_cells (snd (instr_value instr))
        (emitted (jtag_command sim_transport instr (PBytes bs) (resp, [])))
     = cells (map (\<lambda>i. tdi_of (payload_bits (snd (instr_value instr)) bs ! i)
                     OR (if Suc i = snd (instr_value instr) then TMS else 0))
                [0..<snd (instr_value instr)])
   \<and> (32 + 2 * snd (instr_value instr) \<le> length resp \<longrightarrow>
        (\<exists>buf st. jtag_command sim_transport instr (PBytes bs) (resp, []) = Returns buf st))
   \<and> (0 \<le> v \<and> v < 256 ^ ceil8 (snd (instr_value instr)) \<longrightarrow>
        (\<exists>bs'. payload_bytes (snd (instr_value instr)) (PInt v) = Inr bs'
           \<and> payload_bits (snd (instr_value instr)) bs' = map (bit v) [0..<snd (instr_value instr)]
           \<and> jtag_command sim_transport instr (PInt v) (resp, [])
               = jtag_command sim_transport instr (PBytes bs') (resp, [])))
   \<and> (v < 0 \<or> 256 ^ ceil8 (snd (instr_value instr)) \<le> v \<longrightarrow>
        jtag_command T instr (PInt v) d = Raises OverflowError d)"
proof -
  let ?n = "snd (instr_value instr)"
  have pb: "payload_bytes ?n (PBytes bs) = Inr bs"
    by simp
  have "dr_cells ?n (emitted (jtag_command sim_transport instr (PBytes bs) (resp, [])))
     = cells (map (\<lambda>i. tdi_of (payload_bits ?n bs ! i) OR (if Suc i = ?n then TMS else 0)) [0..<?n])"
    by (simp add: emitted_sim [OF pb] dr_cells_stream)
  moreover have "\<exists>buf st. jtag_command sim_transport instr (PBytes bs) (resp, []) = Returns buf st"
    if "32 + 2 * ?n \<le> length resp"
    using jtag_command_sim_returns [OF pb that, of "[]"] by blast
  moreover have "\<exists>bs'. payload_bytes ?n (PInt v) = Inr bs'
           \<and> payload_bits ?n bs' = map (bit v) [0..<?n]
           \<and> jtag_command sim_transport instr (PInt v) (resp, [])
               = jtag_command sim_transport instr (PBytes bs') (resp, [])"
    if "0 \<le> v \<and> v < 256 ^ ceil8 ?n"
  proof -
    from that obtain bs' where tb: "to_bytes v (ceil8 ?n) = Inr bs'"
      by (simp add: to_bytes_def)
    then have "payload_bytes ?n (PInt v) = Inr bs'"
      by simp
    moreover note payload_bits_to_bytes [OF tb]
    moreover have "jtag_command sim_transport instr (PInt v) (resp, [])
        = jtag_command sim_transport instr (PBytes bs') (resp, [])"
      by (simp add: jtag_command_def tb)
    ultimately show ?thesis by blast
  qed
  moreover have "jtag_command T instr (PInt v) d = Raises OverflowError d"
    if "v < 0 \<or> 256 ^ ceil8 ?n \<le> v"
    by (rule overflow_raises [OF that])
  ultimately show ?thesis by blast
qed

theorem payload_handling_witness:
  "dr_cells (snd (instr_value AVR_RESET))
        (emitted (jtag_command sim_transport AVR_RESET (PBytes [0xFF, 0x01]) (replicate 34 0, [])))
     = [20, 52]
   \<and> payload_bits (snd (instr_value AVR_RESET)) [0xFF, 0x01] = [True]
   \<and> payload_bits 15 [0x02] = [False, True, False, False, False, False, False, False,
        False, False, False, False, False, False, False]
   \<and> (\<exists>buf st. jtag_command sim_transport AVR_RESET (PBytes [0xFF, 0x01]) (replicate 34 0, [])
         = Returns buf st)
   \<and> (\<exists>bs'. payload_bytes (snd (instr_value AVR_RESET)) (PInt 1) = Inr bs'
         \<and> payload_bits (snd (instr_value AVR_RESET)) bs' = [True])
   \<and> jtag_command sim_transport AVR_RESET (PInt 256) ([], []) = Raises OverflowError ([], [])"
proof -
  have a: "32 + 2 * snd (instr_value AVR_RESET) \<le> length (replicate 34 (0::int))"
    by simp
  have b: "0 \<le> (1::int) \<and> (1::int) < 256 ^ ceil8 (snd (instr_value AVR_RESET))"
    by (simp add: ceil8_def)
  have c: "payload_bits (snd (instr_value AVR_RESET)) [0xFF, 0x01] = [True]"
    by (simp add: payload_bits_def byte_bits_def upt_conv_Cons del: upt_Suc)
  have d: "payload_bits 15 [0x02] = [False, True, False, False, False, False, False, False,
        False, False, False, False, False, False, False]"
    by (simp add: payload_bits_def byte_bits_def upt_conv_Cons eval_nat_numeral bit_Suc
        del: upt_Suc replicate.simps) (simp add: bit_0)
  note ph = payload_handling [of AVR_RESET "[0xFF, 0x01]" "replicate 34 0" 1
      sim_transport "([], [])"]
  from ph c have p1: "dr_cells (snd (instr_value AVR_RESET))
        (emitted (jtag_command sim_transport AVR_RESET (PBytes [0xFF, 0x01]) (replicate 34 0, [])))
     = [20, 52]"
    by (simp add: cells_def cell_def tdi_of_def line_values)
  from ph a have p2: "\<exists>buf st. jtag_command sim_transport AVR_RESET (PBytes [0xFF, 0x01])
        (replicate 34 0, []) = Returns buf st"
    by blast
  from ph b have p3: "\<exists>bs'. payload_bytes (snd (instr_value AVR_RESET)) (PInt 1) = Inr bs'
         \<and> payload_bits (snd (instr_value AVR_RESET)) bs' = [True]"
    by (simp add: upt_conv_Cons bit_0 del: upt_Suc) blast
  have e: "(256::int) < 0 \<or> 256 ^ ceil8 (snd (instr_value AVR_RESET)) \<le> (256::int)"
    by (simp add: ceil8_def)
  from payload_handling [of AVR_RESET "[]" "[]" 256 sim_transport "([], [])"] e
  have p4: "jtag_command sim_transport AVR_RESET (PInt 256) ([], []) = Raises OverflowError ([], [])"
    by blast
  from p1 c d p2 p3 p4 show ?thesis
    by (intro conjI)
qed

text \<open>
  C8 as stated fails for an integer of more than \<open>8 * ceil(n / 8)\<close> bits: it is not
  truncated, \<^verbatim>\<open>to_bytes\<close> raises \<^verbatim>\<open>OverflowError\<close> before anything is written.
\<close>

theorem payload_handling_counterexample:
  "jtag_command sim_transport PROG_COMMANDS (PInt 0x10000) (replicate 67 0, [])
     = Raises OverflowError (replicate 67 0, [])"
  by (simp add: jtag_command_def to_bytes_def ceil8_def)

section \<open>Properties of the programming sequences\<close>

lemma do_all_append:
  "do_all (as @ bs) s =
     (case do_all as s of Returns u s' \<Rightarrow> do_all bs s' | Raises e s' \<Rightarrow> Raises e s')"
  by (induction as arbitrary: s) (simp_all split: outcome.splits)

lemma run_commands_Nil: "run_commands jtag [] s = Returns () s"
  by (simp add: run_commands_def)

lemma run_commands_append:
  "run_commands jtag (as @ bs) s =
     (case run_commands jtag as s of
        Returns u s' \<Rightarrow> run_commands jtag bs s'
      | Raises e s' \<Rightarrow> Raises e s')"
  unfolding run_commands_def by (simp add: do_all_append)

lemma do_all_run_commands:
  "do_all (map (\<lambda>x. run_commands jtag (g x)) xs) = run_commands jtag (concat (map g xs))"
proof
  fix s
  show "do_all (map (\<lambda>x. run_commands jtag (g x)) xs) s = run_commands jtag (concat (map g xs)) s"
    by (induction xs arbitrary: s)
      (simp_all add: run_commands_Nil run_commands_append split: outcome.splits)
qed

lemma do_all_Cons_run:
  "do_all (call jtag i p # rest) = do_all (run_commands jtag [(i, p)] # rest)"
  by (rule ext) (simp add: run_commands_def split: outcome.splits)

lemma py_range_pages: "py_range (128 * a) n 128 = map (\<lambda>k. 128 * k) [a..<(n + 127) div 128]"
proof (induction "128 * a" n "128 :: nat" arbitrary: a rule: py_range.induct)
  case (1 stop)
  show ?case
  proof (cases "stop \<le> 128 * a")
    case True
    then have "(stop + 127) div 128 \<le> a" by arith
    with True show ?thesis
      by (simp add: py_range.simps [of "128 * a"])
  next
    case False
    then have a: "a < (stop + 127) div 128" by arith
    from False have "\<not> (128 = (0::nat) \<or> stop \<le> 128 * a)" by simp
    from "1.hyps" [OF this, of "Suc a"]
    have "py_range (128 * a + 128) stop 128 = map (\<lambda>k. 128 * k) [Suc a..<(stop + 127) div 128]"
      by (simp add: add.commute)
    with False a show ?thesis
      by (simp add: py_range.simps [of "128 * a"] upt_conv_Cons)
  qed
qed

lemma page_offsets:
  "py_range 0 (length img) PAGE_BYTES = map (\<lambda>k. 128 * k) [0..<page_count img]"
  using py_range_pages [of 0 "length img"] by (simp add: PAGE_BYTES_def page_count_def)

lemma word_address: "drop_bit 1 (int offset) = int (offset div 2)"
  by (simp add: drop_bit_eq_div zdiv_int)

lemma write_page_offset:
  "write_page jtag img offset =
     run_commands jtag
       (address_commands offset
        @ [(PROG_PAGELOAD, PBytes (take 128 (drop offset img))),
           (PROG_COMMANDS, PInt 0x3700), (PROG_COMMANDS, PInt 0x3500),
           (PROG_COMMANDS, PInt 0x3700), (PROG_COMMANDS, PInt 0x3700)])"
  unfolding write_page_def run_commands_def address_commands_def word_address Let_def
  by (simp add: slice_def PAGE_BYTES_def)

lemma write_page_eq:
  "write_page jtag img (128 * k) = run_commands jtag (page_commands img k)"
  by (simp only: write_page_offset page_commands_def page_def)

lemma write_phase:
  "do_all
     [call jtag AVR_RESET (PInt 1),
      call jtag PROG_ENABLE (PInt 0xA370),
      call jtag PROG_COMMANDS (PInt 0x2380),
      call jtag PROG_COMMANDS (PInt 0x3180),
      call jtag PROG_COMMANDS (PInt 0x3380),
      call jtag PROG_COMMANDS (PInt 0x3380),
      call jtag PROG_COMMANDS (PInt 0x2310),
      for_each (py_range 0 (length img) PAGE_BYTES) (write_page jtag img)]
   = run_commands jtag (write_commands img)"
proof
  fix s
  have loop: "for_each (py_range 0 (length img) PAGE_BYTES) (write_page jtag img)
      = run_commands jtag (concat (map (page_commands img) [0..<page_count img]))"
    by (simp add: for_each_def page_offsets comp_def write_page_eq do_all_run_commands)
  show "do_all
     [call jtag AVR_RESET (PInt 1),
      call jtag PROG_ENABLE (PInt 0xA370),
      call jtag PROG_COMMANDS (PInt 0x2380),
      call jtag PROG_COMMANDS (PInt 0x3180),
      call jtag PROG_COMMANDS (PInt 0x3380),
      call jtag PROG_COMMANDS (PInt 0x3380),
      call jtag PROG_COMMANDS (PInt 0x2310),
      for_each (py_range 0 (length img) PAGE_BYTES) (write_page jtag img)] s
   = run_commands jtag (write_commands img) s"
    unfolding loop write_commands_def
    by (simp add: run_commands_append [of jtag "[_, _, _, _, _, _, _]"] split: outcome.splits)
      (simp add: run_commands_def split: outcome.splits)
qed

lemma exit_phase:
  "do_all
     [call jtag PROG_COMMANDS (PInt 0x2300),
      call jtag PROG_COMMANDS (PInt 0x3300),
      call jtag PROG_ENABLE (PInt 0),
      call jtag AVR_RESET (PInt 0)]
   = run_commands jtag exit_commands"
  by (simp add: run_commands_def exit_commands_def)

lemma program_elf_noverify:
  "program_elf jtag img False = run_commands jtag (write_commands img @ exit_commands)"
proof
  fix s
  show "program_elf jtag img False s = run_commands jtag (write_commands img @ exit_commands) s"
    by (simp only: program_elf_def if_False append_Nil do_all_append write_phase exit_phase
        run_commands_append)
qed

lemma program_elf_verify:
  "program_elf jtag img True =
     do_all
       [run_commands jtag (write_commands img @ [(PROG_COMMANDS, PInt 0x2302)]),
        for_each (map (\<lambda>k. 128 * k) [0..<page_count img]) (verify_page jtag img),
        run_commands jtag exit_commands]"
proof
  fix s
  have enter: "do_all (call jtag PROG_COMMANDS (PInt 0x2302) # rest)
      = do_all (run_commands jtag [(PROG_COMMANDS, PInt 0x2302)] # rest)" for rest
    by (rule do_all_Cons_run)
  show "program_elf jtag img True s =
     do_all
       [run_commands jtag (write_commands img @ [(PROG_COMMANDS, PInt 0x2302)]),
        for_each (map (\<lambda>k. 128 * k) [0..<page_count img]) (verify_page jtag img),
        run_commands jtag exit_commands] s"
    by (simp only: program_elf_def if_True do_all_append write_phase exit_phase enter)
      (simp add: run_commands_append page_offsets split: outcome.splits)
qed

lemma call_sim: "call (sim_jtag f) i p h = Returns () (h @ [(i, p)])"
  by (simp add: call_def sim_jtag_def)

lemma run_commands_sim: "run_commands (sim_jtag f) cmds h = Returns () (h @ cmds)"
  by (induction cmds arbitrary: h) (simp_all add: run_commands_def call_sim)

lemma verify_page_sim:
  "verify_page (sim_jtag f) img offset h =
     (if take (length img - offset) (drop 1 (f (h @ address_commands offset) (PROG_PAGEREAD, PInt 0)))
           = take 128 (drop offset img)
      then Returns () (h @ address_commands offset @ [(PROG_PAGEREAD, PInt 0)])
      else Raises (VerificationFailed offset (take 128 (drop offset img))
                     (drop 1 (f (h @ address_commands offset) (PROG_PAGEREAD, PInt 0))))
             (h @ address_commands offset @ [(PROG_PAGEREAD, PInt 0)]))"
  unfolding verify_page_def address_commands_def word_address Let_def
  by (simp add: call_sim sim_jtag_def slice_def PAGE_BYTES_def)

lemma verify_page_at:
  "verify_page (sim_jtag f) img (128 * k)
       (write_commands img @ [(PROG_COMMANDS, PInt 0x2302)] @ concat (map read_commands [0..<k]))
     = (if page_ok f img k
        then Returns () (write_commands img @ [(PROG_COMMANDS, PInt 0x2302)]
               @ concat (map read_commands [0..<Suc k]))
        else Raises (VerificationFailed (128 * k) (page img k) (readback f img k))
               (before_read img k @ [(PROG_PAGEREAD, PInt 0)]))"
  unfolding verify_page_sim
  by (simp add: page_ok_def readback_def before_read_def page_def read_commands_def)

lemma verify_loop_ok:
  assumes "\<forall>j < k. page_ok f img j"
  shows "for_each (map (\<lambda>j. 128 * j) [0..<k]) (verify_page (sim_jtag f) img)
           (write_commands img @ [(PROG_COMMANDS, PInt 0x2302)])
     = Returns () (write_commands img @ [(PROG_COMMANDS, PInt 0x2302)]
         @ concat (map read_commands [0..<k]))"
  using assms
proof (induction k)
  case 0
  then show ?case by (simp add: for_each_def)
next
  case (Suc k)
  then have ih: "for_each (map (\<lambda>j. 128 * j) [0..<k]) (verify_page (sim_jtag f) img)
           (write_commands img @ [(PROG_COMMANDS, PInt 0x2302)])
     = Returns () (write_commands img @ [(PROG_COMMANDS, PInt 0x2302)]
         @ concat (map read_commands [0..<k]))"
    and ok: "page_ok f img k"
    by simp_all
  have "for_each (map (\<lambda>j. 128 * j) [0..<Suc k]) (verify_page (sim_jtag f) img)
           (write_commands img @ [(PROG_COMMANDS, PInt 0x2302)])
      = do_all [verify_page (sim_jtag f) img (128 * k)]
          (write_commands img @ [(PROG_COMMANDS, PInt 0x2302)]
            @ concat (map read_commands [0..<k]))"
    using ih by (simp add: for_each_def do_all_append)
  also have "\<dots> = Returns () (write_commands img @ [(PROG_COMMANDS, PInt 0x2302)]
         @ concat (map read_commands [0..<Suc k]))"
    using ok by (simp only: do_all.simps verify_page_at if_True outcome.case)
  finally show ?case .
qed

lemma verify_loop_fail:
  assumes k: "k < n" and before: "\<forall>j < k. page_ok f img j" and bad: "\<not> page_ok f img k"
  shows "for_each (map (\<lambda>j. 128 * j) [0..<n]) (verify_page (sim_jtag f) img)
           (write_commands img @ [(PROG_COMMANDS, PInt 0x2302)])
     = Raises (VerificationFailed (128 * k) (page img k) (readback f img k))
         (before_read img k @ [(PROG_PAGEREAD, PInt 0)])"
proof -
  from k have split: "[0..<n] = [0..<k] @ k # [Suc k..<n]"
    by (metis le_add1 less_imp_add_positive upt_add_eq_append upt_conv_Cons
        add.left_neutral less_eq_nat.simps(1))
  have "for_each (map (\<lambda>j. 128 * j) [0..<n]) (verify_page (sim_jtag f) img)
           (write_commands img @ [(PROG_COMMANDS, PInt 0x2302)])
      = do_all (verify_page (sim_jtag f) img (128 * k)
                 # map (verify_page (sim_jtag f) img) (map (\<lambda>j. 128 * j) [Suc k..<n]))
          (write_commands img @ [(PROG_COMMANDS, PInt 0x2302)]
            @ concat (map read_commands [0..<k]))"
    using verify_loop_ok [OF before]
    by (simp add: for_each_def split do_all_append del: upt_Suc)
  also have "\<dots> = Raises (VerificationFailed (128 * k) (page img k) (readback f img k))
         (before_read img k @ [(PROG_PAGEREAD, PInt 0)])"
    using bad by (simp only: do_all.simps verify_page_at if_False outcome.case)
  finally show ?thesis .
qed

lemma program_elf_verified:
  assumes "\<forall>k < page_count img. page_ok f img k"
  shows "program_elf (sim_jtag f) img True [] = Returns () (verified_commands img)"
  unfolding program_elf_verify verified_commands_def
  using verify_loop_ok [OF assms]
  by (simp add: run_commands_sim)

lemma program_elf_rejected:
  assumes "k < page_count img" "\<forall>j < k. page_ok f img j" "\<not> page_ok f img k"
  shows "program_elf (sim_jtag f) img True []
     = Raises (VerificationFailed (128 * k) (page img k) (readback f img k))
         (before_read img k @ [(PROG_PAGEREAD, PInt 0)])"
  unfolding program_elf_verify
  using verify_loop_fail [OF assms]
  by (simp add: run_commands_sim)

lemma length_page: "length (page img k) = min 128 (length img - 128 * k)"
  by (simp add: page_def)

lemma page_ok_written:
  assumes "f (before_read img k) (PROG_PAGEREAD, PInt 0) = x # written_page img k"
  shows "page_ok f img k"
  unfolding page_ok_def readback_def assms
  by (simp add: written_page_def length_page)

lemma readback_criterion:
  assumes "offset < length img" "length r = 129"
  shows "(take (length img - offset) (drop 1 r) = take 128 (drop offset img))
     = (\<forall>i < min 128 (length img - offset). r ! (i + 1) = img ! (offset + i))"
  using assms by (auto simp: list_eq_iff_nth_eq min_def add.commute)

lemma payload_bit_padded:
  assumes "i < 1024"
  shows "payload_bit (p @ replicate (128 - length p) 0) i = payload_bit p i"
proof (cases "i div 8 < length p")
  case True
  then show ?thesis
    by (simp add: payload_bit_def nth_append)
next
  case False
  from assms have "i div 8 < 128" by simp
  with False show ?thesis
    by (simp add: payload_bit_def nth_append)
qed

lemma frame_padded:
  "frame irvalue 1024 (p @ replicate (128 - length p) 0) = frame irvalue 1024 p"
  unfolding frame_def by (simp add: payload_bit_padded del: upt_Suc cong: map_cong)

lemma pageload_padded:
  "jtag_command T PROG_PAGELOAD (PBytes (p @ replicate (128 - length p) 0))
     = jtag_command T PROG_PAGELOAD (PBytes p)"
proof
  fix d
  have "jtag_stream 0x6 1024 (p @ replicate (128 - length p) 0) = jtag_stream 0x6 1024 p"
    by (simp add: jtag_stream_eq frame_padded)
  then show "jtag_command T PROG_PAGELOAD (PBytes (p @ replicate (128 - length p) 0)) d
     = jtag_command T PROG_PAGELOAD (PBytes p) d"
    by (simp add: jtag_command_def)
qed

lemma pageloads_of_page:
  "filter (\<lambda>c. fst c = PROG_PAGELOAD) (page_commands img k) = [(PROG_PAGELOAD, PBytes (page img k))]"
  by (simp add: page_commands_def address_commands_def Let_def)

lemma pageloads_of_write:
  "filter (\<lambda>c. fst c = PROG_PAGELOAD) (write_commands img @ exit_commands)
     = map (\<lambda>k. (PROG_PAGELOAD, PBytes (page img k))) [0..<page_count img]"
proof -
  have "concat (map (\<lambda>k. filter (\<lambda>c. fst c = PROG_PAGELOAD) (page_commands img k)) ks)
      = map (\<lambda>k. (PROG_PAGELOAD, PBytes (page img k))) ks" for ks
    by (induction ks) (simp_all add: pageloads_of_page)
  then show ?thesis
    by (simp add: write_commands_def exit_commands_def filter_concat comp_def)
qed

lemma status_bit: "(x AND 2 \<noteq> 0) = bit x 1" for x :: int
  using and_exp_eq_0_iff_not_bit [of x 1] by simp

lemma poll_step:
  "poll_fuse_write_complete (sim_jtag f) h =
     (if length (f h poll_command) \<le> 1 then Some (Raises IndexError (h @ [poll_command]))
      else if bit (f h poll_command ! 1) 1 then Some (Returns () (h @ [poll_command]))
      else poll_fuse_write_complete (sim_jtag f) (h @ [poll_command]))"
  by (subst poll_fuse_write_complete.simps)
    (simp add: sim_jtag_def poll_command_def status_bit)

lemma total_call_sim: "total (call (sim_jtag f) i p) h = Some (Returns () (h @ [(i, p)]))"
  by (simp add: total_def call_sim)

lemma poll_ready:
  assumes "\<forall>h. 1 < length (f h poll_command) \<and> bit (f h poll_command ! 1) 1"
  shows "poll_fuse_write_complete (sim_jtag f) h = Some (Returns () (h @ [poll_command]))"
proof -
  from assms have "1 < length (f h poll_command)" and "bit (f h poll_command ! 1) 1"
    by blast+
  then show ?thesis
    by (simp add: poll_step [of f h])
qed

lemma program_fuses_not_int:
  assumes "\<forall>v. fuses \<noteq> PyInt v"
  shows "program_fuses jtag fuses extended_fuses s = Some (Raises TypeError s)"
  using assms by (cases fuses) (simp_all add: program_fuses_def)

lemma program_fuses_ready:
  assumes "\<forall>h. 1 < length (f h poll_command) \<and> bit (f h poll_command ! 1) 1"
  shows "program_fuses (sim_jtag f) (PyInt fv) (PyInt ev) []
     = Some (Returns () (fuse_commands (ev AND 0xff) ((drop_bit 8 fv) AND 0xff) (fv AND 0xff)))"
  by (simp add: program_fuses_def total_call_sim poll_ready [of f, OF assms] fuse_commands_def)

lemma no_pageload_address: "filter (\<lambda>c. fst c = PROG_PAGELOAD) (address_commands offset) = []"
  by (simp add: address_commands_def Let_def)

lemma verify_page_state:
  "state_of (verify_page (sim_jtag f) img offset h)
     = h @ address_commands offset @ [(PROG_PAGEREAD, PInt 0)]"
  by (simp add: verify_page_sim)

lemma verify_loop_state:
  "\<exists>rest. state_of (do_all (map (verify_page (sim_jtag f) img) offsets) h) = h @ rest
     \<and> filter (\<lambda>c. fst c = PROG_PAGELOAD) rest = []
     \<and> (\<forall>u s. do_all (map (verify_page (sim_jtag f) img) offsets) h = Returns u s \<longrightarrow> s = h @ rest)"
proof (induction offsets arbitrary: h)
  case Nil
  then show ?case by simp
next
  case (Cons offset offsets)
  let ?h1 = "h @ address_commands offset @ [(PROG_PAGEREAD, PInt 0)]"
  show ?case
  proof (cases "verify_page (sim_jtag f) img offset h")
    case (Returns u s)
    with verify_page_state [of f img offset h] have s: "s = ?h1" by simp
    from Cons.IH [of ?h1] obtain rest where
      st: "state_of (do_all (map (verify_page (sim_jtag f) img) offsets) ?h1) = ?h1 @ rest"
      and no: "filter (\<lambda>c. fst c = PROG_PAGELOAD) rest = []"
      by blast
    have "state_of (do_all (map (verify_page (sim_jtag f) img) (offset # offsets)) h)
        = h @ (address_commands offset @ [(PROG_PAGEREAD, PInt 0)] @ rest)"
      using Returns s st by simp
    moreover have "filter (\<lambda>c. fst c = PROG_PAGELOAD)
        (address_commands offset @ [(PROG_PAGEREAD, PInt 0)] @ rest) = []"
      using no by (simp add: no_pageload_address)
    moreover have "\<forall>u s. do_all (map (verify_page (sim_jtag f) img) (offset # offsets)) h = Returns u s
        \<longrightarrow> s = h @ (address_commands offset @ [(PROG_PAGEREAD, PInt 0)] @ rest)"
      using calculation(1) by (metis state_of.simps(1))
    ultimately show ?thesis by blast
  next
    case (Raises e s)
    with verify_page_state [of f img offset h] have s: "s = ?h1" by simp
    have "state_of (do_all (map (verify_page (sim_jtag f) img) (offset # offsets)) h)
        = h @ (address_commands offset @ [(PROG_PAGEREAD, PInt 0)])"
      using Raises s by simp
    moreover have "filter (\<lambda>c. fst c = PROG_PAGELOAD)
        (address_commands offset @ [(PROG_PAGEREAD, PInt 0)]) = []"
      by (simp add: no_pageload_address)
    moreover have "\<forall>u s. do_all (map (verify_page (sim_jtag f) img) (offset # offsets)) h = Returns u s
        \<longrightarrow> s = h @ (address_commands offset @ [(PROG_PAGEREAD, PInt 0)])"
      using Raises by simp
    ultimately show ?thesis by blast
  qed
qed

lemma no_pageload_exit: "filter (\<lambda>c. fst c = PROG_PAGELOAD) exit_commands = []"
  by (simp add: exit_commands_def)

lemma program_elf_sent:
  "\<exists>rest. state_of (program_elf (sim_jtag f) img verify []) = write_commands img @ rest
     \<and> filter (\<lambda>c. fst c = PROG_PAGELOAD) rest = []"
proof (cases verify)
  case False
  then show ?thesis
    using no_pageload_exit by (auto simp: program_elf_noverify run_commands_sim)
next
  case True
  let ?h = "write_commands img @ [(PROG_COMMANDS, PInt 0x2302)]"
  let ?loop = "do_all (map (verify_page (sim_jtag f) img) (map (\<lambda>k. 128 * k) [0..<page_count img]))"
  from verify_loop_state [of f img "map (\<lambda>k. 128 * k) [0..<page_count img]" ?h]
  obtain rest where st: "state_of (?loop ?h) = ?h @ rest"
    and no: "filter (\<lambda>c. fst c = PROG_PAGELOAD) rest = []"
    by blast
  show ?thesis
  proof (cases "?loop ?h")
    case (Returns u s)
    with st have "s = ?h @ rest" by simp
    with Returns have "state_of (program_elf (sim_jtag f) img True [])
        = write_commands img @ ((PROG_COMMANDS, PInt 0x2302) # rest @ exit_commands)"
      by (simp add: program_elf_verify run_commands_sim for_each_def)
    moreover have "filter (\<lambda>c. fst c = PROG_PAGELOAD)
        ((PROG_COMMANDS, PInt 0x2302) # rest @ exit_commands) = []"
      using no by (simp add: no_pageload_exit)
    ultimately have "\<exists>rest. state_of (program_elf (sim_jtag f) img True [])
          = write_commands img @ rest
        \<and> filter (\<lambda>c. fst c = PROG_PAGELOAD) rest = []"
      by blast
    with True show ?thesis by simp
  next
    case (Raises e s)
    with st have "s = ?h @ rest" by simp
    with Raises have "state_of (program_elf (sim_jtag f) img True [])
        = write_commands img @ ((PROG_COMMANDS, PInt 0x2302) # rest)"
      by (simp add: program_elf_verify run_commands_sim for_each_def)
    moreover have "filter (\<lambda>c. fst c = PROG_PAGELOAD) ((PROG_COMMANDS, PInt 0x2302) # rest) = []"
      using no by simp
    ultimately have "\<exists>rest. state_of (program_elf (sim_jtag f) img True [])
          = write_commands img @ rest
        \<and> filter (\<lambda>c. fst c = PROG_PAGELOAD) rest = []"
      by blast
    with True show ?thesis by simp
  qed
qed

lemma pageloads_written:
  "filter (\<lambda>c. fst c = PROG_PAGELOAD) (write_commands img)
     = map (\<lambda>k. (PROG_PAGELOAD, PBytes (page img k))) [0..<page_count img]"
  using pageloads_of_write [of img] by (simp add: no_pageload_exit)

lemma program_elf_pageloads:
  "filter (\<lambda>c. fst c = PROG_PAGELOAD) (state_of (program_elf (sim_jtag f) img verify []))
     = map (\<lambda>k. (PROG_PAGELOAD, PBytes (page img k))) [0..<page_count img]"
proof -
  from program_elf_sent [of f img verify] obtain rest where
    "state_of (program_elf (sim_jtag f) img verify []) = write_commands img @ rest"
    and "filter (\<lambda>c. fst c = PROG_PAGELOAD) rest = []"
    by blast
  then show ?thesis
    by (simp add: pageloads_written)
qed

lemma length_written_page: "length (written_page img k) = 128"
  by (simp add: written_page_def length_page)

lemma pageload_stream:
  "emitted (jtag_command sim_transport PROG_PAGELOAD (PBytes (page img k)) (resp, []))
     = 0 # cells (frame 0x6 1024 (written_page img k))"
proof -
  have pb: "payload_bytes (snd (instr_value PROG_PAGELOAD)) (PBytes (page img k)) = Inr (page img k)"
    by simp
  show ?thesis
    unfolding emitted_sim [OF pb] written_page_def frame_padded by simp
qed

lemma pageload_bits:
  "dr_cells 1024 (emitted (jtag_command sim_transport PROG_PAGELOAD (PBytes (page img k)) (resp, [])))
     = cells (map (\<lambda>i. tdi_of (bit (written_page img k ! (i div 8)) (i mod 8))
                     OR (if Suc i = 1024 then TMS else 0)) [0..<1024])"
proof -
  have "payload_bits 1024 (written_page img k) ! i = bit (written_page img k ! (i div 8)) (i mod 8)"
    if "i < 1024" for i
  proof -
    from that have "i div 8 < 128" by simp
    then show ?thesis
      using nth_payload_bits [OF that, of "written_page img k"]
      by (simp add: payload_bit_def length_written_page)
  qed
  note bits = this
  have "map (\<lambda>i. tdi_of (payload_bits 1024 (written_page img k) ! i)
                     OR (if Suc i = 1024 then TMS else 0)) [0..<1024]
      = map (\<lambda>i. tdi_of (bit (written_page img k ! (i div 8)) (i mod 8))
                     OR (if Suc i = 1024 then TMS else 0)) [0..<1024]"
  proof (rule map_cong [OF refl])
    fix i
    assume "i \<in> set [0..<1024]"
    then have "i < 1024" by simp
    from bits [OF this]
    show "tdi_of (payload_bits 1024 (written_page img k) ! i) OR (if Suc i = 1024 then TMS else 0)
        = tdi_of (bit (written_page img k ! (i div 8)) (i mod 8)) OR (if Suc i = 1024 then TMS else 0)"
      by simp
  qed
  then show ?thesis
    unfolding pageload_stream dr_cells_stream by (rule arg_cong)
qed

text \<open>
  The two layers together: the polling loop on the codec and the simulated transport,
  whose second answer carries \<open>TDO\<close> at the sample of bit 9 (bit 1 of byte 1).
\<close>

lemma poll_codec_step:
  "poll_fuse_write_complete (jtag_command sim_transport) (resp, out) =
     (case jtag_command sim_transport PROG_COMMANDS (PInt 0x3700) (resp, out) of
        Raises e s' \<Rightarrow> Some (Raises e s')
      | Returns r s' \<Rightarrow>
          if length r \<le> 1 then Some (Raises IndexError s')
          else if bit (r ! 1) 1 then Some (Returns () s')
          else poll_fuse_write_complete (jtag_command sim_transport) s')"
  by (subst poll_fuse_write_complete.simps) (simp add: status_bit split: outcome.splits)

lemma poll_command_bytes: "payload_bytes (snd (instr_value PROG_COMMANDS)) (PInt 0x3700) = Inr [0x00, 0x37]"
  by (simp add: to_bytes_def ceil8_def upt_conv_Cons del: upt_Suc)

lemma poll_on_codec:
  "poll_fuse_write_complete (jtag_command sim_transport)
       (replicate 67 0 @ replicate 51 0 @ 8 # replicate 15 0, [])
     = Some (Returns () ([],
         (0 # cells (frame 0x5 15 [0x00, 0x37])) @ (0 # cells (frame 0x5 15 [0x00, 0x37]))))"
proof -
  have r2: "replicate 2 (0::int) = [0, 0]"
    by (simp add: numeral_2_eq_2)
  have first: "jtag_command sim_transport PROG_COMMANDS (PInt 0x3700)
        (replicate 67 0 @ replicate 51 0 @ 8 # replicate 15 0, [])
      = Returns [0, 0] (replicate 51 0 @ 8 # replicate 15 0, 0 # cells (frame 0x5 15 [0x00, 0x37]))"
    by (simp add: jtag_command_sim [OF poll_command_bytes] ceil8_def upt_conv_Cons nth_append
        line_values r2 del: upt_Suc replicate.simps)
  have second: "jtag_command sim_transport PROG_COMMANDS (PInt 0x3700)
        (replicate 51 0 @ 8 # replicate 15 0, 0 # cells (frame 0x5 15 [0x00, 0x37]))
      = Returns [0, 2] ([],
          (0 # cells (frame 0x5 15 [0x00, 0x37])) @ (0 # cells (frame 0x5 15 [0x00, 0x37])))"
    by (simp add: jtag_command_sim [OF poll_command_bytes] ceil8_def upt_conv_Cons nth_append
        line_values r2 del: upt_Suc replicate.simps)
  show ?thesis
    by (simp add: poll_codec_step first second)
qed

section \<open>Claims about the programming sequences\<close>

text \<open>
  C3 (page iteration). Without verification, \<^verbatim>\<open>program_elf\<close> is the run of
  \<open>write_commands\<close> followed by \<open>exit_commands\<close>, whatever executes the transactions;
  with verification it is the run of \<open>write_commands\<close>, the entry into flash-read
  mode, the verify loop and the exit. With or without verification, and whether or not
  the verification then fails, what a simulated chip is sent begins with
  \<open>write_commands\<close>, and its \<open>PROG_PAGELOAD\<close> transactions are exactly the pages
  \<open>0, 1, \<dots>\<close> of the image in ascending order, \<open>ceil(L / 128)\<close> of them, each after
  the high and the low byte of its word address. A short final page is handed to
  \<^verbatim>\<open>jtag_command\<close> as it is and padded while it is shifted: the stream written for
  page \<open>k\<close> is the frame of its 128 zero-padded bytes, and data-register cell \<open>i\<close>,
  for each of the 1024 cells, carries bit \<open>i mod 8\<close> of byte \<open>i div 8\<close> of these bytes
  on \<open>TDI\<close>.
\<close>

theorem page_iteration:
  "program_elf jtag img False = run_commands jtag (write_commands img @ exit_commands)
   \<and> program_elf (sim_jtag f) img False [] = Returns () (write_commands img @ exit_commands)
   \<and> filter (\<lambda>c. fst c = PROG_PAGELOAD) (write_commands img @ exit_commands)
       = map (\<lambda>k. (PROG_PAGELOAD, PBytes (page img k))) [0..<page_count img]
   \<and> page_count img = (length img + 127) div 128
   \<and> jtag_command T PROG_PAGELOAD (PBytes (page img k))
       = jtag_command T PROG_PAGELOAD (PBytes (page img k @ replicate (128 - length (page img k)) 0))
   \<and> program_elf jtag img True =
       do_all
         [run_commands jtag (write_commands img @ [(PROG_COMMANDS, PInt 0x2302)]),
          for_each (map (\<lambda>k. 128 * k) [0..<page_count img]) (verify_page jtag img),
          run_commands jtag exit_commands]
   \<and> take (length (write_commands img)) (state_of (program_elf (sim_jtag f) img verify []))
       = write_commands img
   \<and> filter (\<lambda>c. fst c = PROG_PAGELOAD) (state_of (program_elf (sim_jtag f) img verify []))
       = map (\<lambda>k. (PROG_PAGELOAD, PBytes (page img k))) [0..<page_count img]
   \<and> written_page img k = page img k @ replicate (128 - length (page img k)) 0
   \<and> length (written_page img k) = 128
   \<and> emitted (jtag_command sim_transport PROG_PAGELOAD (PBytes (page img k)) (resp, []))
       = 0 # cells (frame 0x6 1024 (written_page img k))
   \<and> dr_cells 1024 (emitted (jtag_command sim_transport PROG_PAGELOAD (PBytes (page img k)) (resp, [])))
       = cells (map (\<lambda>i. tdi_of (bit (written_page img k ! (i div 8)) (i mod 8))
                       OR (if Suc i = 1024 then TMS else 0)) [0..<1024])"
proof (intro conjI)
  show "program_elf jtag img False = run_commands jtag (write_commands img @ exit_commands)"
    by (rule program_elf_noverify)
  show "program_elf (sim_jtag f) img False [] = Returns () (write_commands img @ exit_commands)"
    by (simp add: program_elf_noverify run_commands_sim)
  show "filter (\<lambda>c. fst c = PROG_PAGELOAD) (write_commands img @ exit_commands)
       = map (\<lambda>k. (PROG_PAGELOAD, PBytes (page img k))) [0..<page_count img]"
    by (rule pageloads_of_write)
  show "page_count img = (length img + 127) div 128"
    by (rule page_count_def)
  show "jtag_command T PROG_PAGELOAD (PBytes (page img k))
       = jtag_command T PROG_PAGELOAD (PBytes (page img k @ replicate (128 - length (page img k)) 0))"
    by (rule pageload_padded [symmetric])
  show "program_elf jtag img True =
       do_all
         [run_commands jtag (write_commands img @ [(PROG_COMMANDS, PInt 0x2302)]),
          for_each (map (\<lambda>k. 128 * k) [0..<page_count img]) (verify_page jtag img),
          run_commands jtag exit_commands]"
    by (rule program_elf_verify)
  show "take (length (write_commands img)) (state_of (program_elf (sim_jtag f) img verify []))
       = write_commands img"
    using program_elf_sent [of f img verify] by auto
  show "filter (\<lambda>c. fst c = PROG_PAGELOAD) (state_of (program_elf (sim_jtag f) img verify []))
       = map (\<lambda>k. (PROG_PAGELOAD, PBytes (page img k))) [0..<page_count img]"
    by (rule program_elf_pageloads)
  show "written_page img k = page img k @ replicate (128 - length (page img k)) 0"
    by (rule written_page_def)
  show "length (written_page img k) = 128"
    by (rule length_written_page)
  show "emitted (jtag_command sim_transport PROG_PAGELOAD (PBytes (page img k)) (resp, []))
       = 0 # cells (frame 0x6 1024 (written_page img k))"
    by (rule pageload_stream)
  show "dr_cells 1024 (emitted (jtag_command sim_transport PROG_PAGELOAD (PBytes (page img k)) (resp, [])))
       = cells (map (\<lambda>i. tdi_of (bit (written_page img k ! (i div 8)) (i mod 8))
                       OR (if Suc i = 1024 then TMS else 0)) [0..<1024])"
    by (rule pageload_bits)
qed

theorem page_iteration_witness:
  "program_elf (sim_jtag (\<lambda>h c. [])) [1, 2, 3] False []
     = Returns ()
         [(AVR_RESET, PInt 1), (PROG_ENABLE, PInt 0xA370),
          (PROG_COMMANDS, PInt 0x2380), (PROG_COMMANDS, PInt 0x3180),
          (PROG_COMMANDS, PInt 0x3380), (PROG_COMMANDS, PInt 0x3380),
          (PROG_COMMANDS, PInt 0x2310),
          (PROG_COMMANDS, PInt 0x0700), (PROG_COMMANDS, PInt 0x0300),
          (PROG_PAGELOAD, PBytes [1, 2, 3]),
          (PROG_COMMANDS, PInt 0x3700), (PROG_COMMANDS, PInt 0x3500),
          (PROG_COMMANDS, PInt 0x3700), (PROG_COMMANDS, PInt 0x3700),
          (PROG_COMMANDS, PInt 0x2300), (PROG_COMMANDS, PInt 0x3300),
          (PROG_ENABLE, PInt 0), (AVR_RESET, PInt 0)]
   \<and> filter (\<lambda>c. fst c = PROG_PAGELOAD)
         (state_of (program_elf (sim_jtag (\<lambda>h c. [])) [1, 2, 3] True []))
       = [(PROG_PAGELOAD, PBytes [1, 2, 3])]
   \<and> written_page [1, 2, 3] 0 = 1 # 2 # 3 # replicate 125 0
   \<and> take 6 (dr_cells 1024 (emitted (jtag_command sim_transport PROG_PAGELOAD
         (PBytes (page [1, 2, 3] 0)) ([], []))))
       = [4, 36, 0, 32, 0, 32]"
proof -
  note pi = page_iteration [where img = "[1, 2, 3]" and f = "\<lambda>h c. []" and k = 0
      and jtag = "sim_jtag (\<lambda>h c. [])" and T = sim_transport and resp = "[]"]
  have a: "program_elf (sim_jtag (\<lambda>h c. [])) [1, 2, 3] False []
     = Returns ()
         [(AVR_RESET, PInt 1), (PROG_ENABLE, PInt 0xA370),
          (PROG_COMMANDS, PInt 0x2380), (PROG_COMMANDS, PInt 0x3180),
          (PROG_COMMANDS, PInt 0x3380), (PROG_COMMANDS, PInt 0x3380),
          (PROG_COMMANDS, PInt 0x2310),
          (PROG_COMMANDS, PInt 0x0700), (PROG_COMMANDS, PInt 0x0300),
          (PROG_PAGELOAD, PBytes [1, 2, 3]),
          (PROG_COMMANDS, PInt 0x3700), (PROG_COMMANDS, PInt 0x3500),
          (PROG_COMMANDS, PInt 0x3700), (PROG_COMMANDS, PInt 0x3700),
          (PROG_COMMANDS, PInt 0x2300), (PROG_COMMANDS, PInt 0x3300),
          (PROG_ENABLE, PInt 0), (AVR_RESET, PInt 0)]"
    using pi [where verify = False, THEN conjunct2, THEN conjunct1]
    by (simp add: write_commands_def exit_commands_def page_commands_def address_commands_def
        page_def page_count_def)
  have b: "filter (\<lambda>c. fst c = PROG_PAGELOAD)
         (state_of (program_elf (sim_jtag (\<lambda>h c. [])) [1, 2, 3] True []))
       = [(PROG_PAGELOAD, PBytes [1, 2, 3])]"
    using pi [where verify = True, THEN conjunct2, THEN conjunct2, THEN conjunct2, THEN conjunct2,
        THEN conjunct2, THEN conjunct2, THEN conjunct2, THEN conjunct1]
    by (simp add: page_def page_count_def)
  have c: "written_page [1, 2, 3] 0 = 1 # 2 # 3 # replicate 125 0"
    using pi [where verify = True, THEN conjunct2, THEN conjunct2, THEN conjunct2, THEN conjunct2,
        THEN conjunct2, THEN conjunct2, THEN conjunct2, THEN conjunct2, THEN conjunct1]
    by (simp add: page_def)
  define rest :: "nat list" where "rest = [3..<1024]"
  have s1: "[0..<3 + 1021] = [0..<3] @ [3..<3 + 1021]"
    by (rule upt_add_eq_append) simp
  have s2: "[0..<3] = [0, 1, 2]"
    by (simp add: upt_conv_Cons numeral_3_eq_3 del: upt_Suc)
  have n: "(3::nat) + 1021 = 1024"
    by simp
  have split: "[0..<1024] = [0, 1, 2] @ rest"
    using s1 unfolding s2 n rest_def .
  have d: "take 6 (dr_cells 1024 (emitted (jtag_command sim_transport PROG_PAGELOAD
         (PBytes (page [1, 2, 3] 0)) ([], []))))
       = [4, 36, 0, 32, 0, 32]"
    using pi [where verify = True, THEN conjunct2, THEN conjunct2, THEN conjunct2, THEN conjunct2,
        THEN conjunct2, THEN conjunct2, THEN conjunct2, THEN conjunct2, THEN conjunct2,
        THEN conjunct2, THEN conjunct2]
    unfolding c split
    by (simp add: cells_append cells_Cons cells_Nil cell_def tdi_of_def line_values bit_0 bit_Suc)
  from a b c d show ?thesis
    by (intro conjI)
qed

text \<open>
  C4 (verify readback), as the program has it. With verification, the write phase and
  the entry into flash-read mode are followed by \<^verbatim>\<open>verify_page\<close> for every page in
  ascending order, then by the exit. For each page the address is loaded,
  \<open>PROG_PAGEREAD(0)\<close> is issued, the first byte (eight bits, not one) of the 129 bytes
  returned is dropped, and the first \<open>L - offset\<close> of the remaining bytes are compared
  with the page: byte \<open>i + 1\<close> of the answer with byte \<open>offset + i\<close> of the image, for
  \<open>i\<close> below 128 and below the remaining length.
\<close>

theorem verify_readback:
  "program_elf jtag img True =
     do_all
       [run_commands jtag (write_commands img @ [(PROG_COMMANDS, PInt 0x2302)]),
        for_each (map (\<lambda>k. 128 * k) [0..<page_count img]) (verify_page jtag img),
        run_commands jtag exit_commands]
   \<and> verify_page (sim_jtag f) img offset h =
     (if take (length img - offset) (drop 1 (f (h @ address_commands offset) (PROG_PAGEREAD, PInt 0)))
           = take 128 (drop offset img)
      then Returns () (h @ address_commands offset @ [(PROG_PAGEREAD, PInt 0)])
      else Raises (VerificationFailed offset (take 128 (drop offset img))
                     (drop 1 (f (h @ address_commands offset) (PROG_PAGEREAD, PInt 0))))
             (h @ address_commands offset @ [(PROG_PAGEREAD, PInt 0)]))
   \<and> (offset < length img \<and> length r = 129 \<longrightarrow>
        (take (length img - offset) (drop 1 r) = take 128 (drop offset img))
          = (\<forall>i < min 128 (length img - offset). r ! (i + 1) = img ! (offset + i)))"
  using program_elf_verify [of jtag img] verify_page_sim [of f img offset h]
    readback_criterion [of offset img r]
  by blast

theorem verify_readback_witness:
  "(0::nat) < length [1::int, 2]
   \<and> length (9 # 1 # 2 # replicate 126 (0::int)) = 129
   \<and> verify_page (sim_jtag (\<lambda>h c. 9 # 1 # 2 # replicate 126 0)) [1, 2] 0 []
       = Returns () (address_commands 0 @ [(PROG_PAGEREAD, PInt 0)])
   \<and> (9 # 1 # 2 # replicate 126 (0::int)) ! 1 = 1
   \<and> (9 # 1 # 2 # replicate 126 (0::int)) ! 2 = 2"
proof -
  let ?r = "9 # 1 # 2 # replicate 126 (0::int)"
  note vr = verify_readback [of "sim_jtag (\<lambda>h c. ?r)" "[1, 2]" "\<lambda>h c. ?r" 0 "[]" ?r]
  have a: "(0::nat) < length [1::int, 2]" and b: "length ?r = 129"
    by simp_all
  from vr [THEN conjunct2, THEN conjunct1]
  have v: "verify_page (sim_jtag (\<lambda>h c. ?r)) [1, 2] 0 []
       = Returns () (address_commands 0 @ [(PROG_PAGEREAD, PInt 0)])"
    by simp
  from vr [THEN conjunct2, THEN conjunct2] a b have "(take (length [1::int, 2] - 0) (drop 1 ?r) = take 128 (drop 0 [1, 2]))
      = (\<forall>i < min 128 (length [1::int, 2] - 0). ?r ! (i + 1) = [1, 2] ! (0 + i))"
    by blast
  then have all: "\<forall>i < min 128 (length [1::int, 2] - 0). ?r ! (i + 1) = [1, 2] ! (0 + i)"
    by simp
  from all [rule_format, of 0] have c: "?r ! 1 = 1"
    by simp
  from all [rule_format, of 1] have d: "?r ! 2 = 2"
    by simp
  from a b v c d show ?thesis
    by (intro conjI)
qed

text \<open>
  C4 as stated fails: the program accepts, for the image \<^verbatim>\<open>[0xFF]\<close>, an answer whose
  second byte is \<^verbatim>\<open>0xFF\<close>, while the bits that follow the first returned bit begin
  with the byte \<^verbatim>\<open>0x80\<close>.
\<close>

theorem verify_readback_counterexample:
  "verify_page (sim_jtag (\<lambda>h c. 0 # 0xFF # replicate 127 0)) [0xFF] 0 []
     = Returns () (address_commands 0 @ [(PROG_PAGEREAD, PInt 0)])
   \<and> take 1 (discard_first_bit (0 # 0xFF # replicate 127 0)) \<noteq> [0xFF]"
proof
  show "verify_page (sim_jtag (\<lambda>h c. 0 # 0xFF # replicate 127 0)) [0xFF] 0 []
     = Returns () (address_commands 0 @ [(PROG_PAGEREAD, PInt 0)])"
    by (simp add: verify_page_sim)
next
  define r where "r = 0 # 0xFF # replicate 127 (0::int)"
  define bits where "bits = concat (map byte_bits r)"
  define xs where "xs = drop 1 bits"
  have l0: "length bits = 1032"
    unfolding bits_def length_concat_byte_bits by (simp add: r_def)
  have len: "length xs = 1031"
    unfolding xs_def length_drop l0 by simp
  then have j: "0 < ceil8 (length xs)"
    by (simp add: ceil8_def)
  have "bits ! 1 = bit (r ! (1 div 8)) (1 mod 8)"
    unfolding bits_def by (rule nth_concat_byte_bits) (simp add: r_def)
  then have "\<not> bits ! 1"
    by (simp add: r_def)
  then have "\<not> xs ! 0"
    unfolding xs_def using l0 by simp
  with bit_pack_bits [OF j, of 0] have "\<not> bit (pack_bits xs ! 0) 0"
    by simp
  then have "pack_bits xs ! 0 \<noteq> 0xFF"
    by (metis bit_0 odd_numeral)
  moreover have "take 1 (pack_bits xs) = [pack_bits xs ! 0]"
    using j by (simp add: take_Suc_conv_app_nth length_pack_bits)
  ultimately have "take 1 (discard_first_bit r) \<noteq> [0xFF]"
    by (simp add: discard_first_bit_def xs_def bits_def)
  then show "take 1 (discard_first_bit (0 # 0xFF # replicate 127 0)) \<noteq> [0xFF]"
    unfolding r_def .
qed

text \<open>
  C5 (verification failure). If every page read back is accepted, in particular if the
  chip answers each read with some first byte followed by the 128 bytes written,
  \<^verbatim>\<open>program_elf\<close> returns after the exit sequence. If page \<open>k\<close> is the first one that
  differs, it raises the error with the page's offset, the bytes expected and the bytes
  read, and the last transaction sent is the read of page \<open>k\<close>: nothing is retried and
  the exit sequence is not sent.
\<close>

theorem verification_outcome:
  "((\<forall>k < page_count img. page_ok f img k) \<longrightarrow>
      program_elf (sim_jtag f) img True [] = Returns () (verified_commands img))
   \<and> ((\<forall>k < page_count img. f (before_read img k) (PROG_PAGEREAD, PInt 0) = x k # written_page img k) \<longrightarrow>
      program_elf (sim_jtag f) img True [] = Returns () (verified_commands img))
   \<and> (k < page_count img \<and> (\<forall>j < k. page_ok f img j) \<and> \<not> page_ok f img k \<longrightarrow>
      program_elf (sim_jtag f) img True []
        = Raises (VerificationFailed (128 * k) (page img k) (readback f img k))
            (before_read img k @ [(PROG_PAGEREAD, PInt 0)]))"
proof -
  have "program_elf (sim_jtag f) img True [] = Returns () (verified_commands img)"
    if "\<forall>k < page_count img. f (before_read img k) (PROG_PAGEREAD, PInt 0) = x k # written_page img k"
  proof (rule program_elf_verified)
    from that show "\<forall>k < page_count img. page_ok f img k"
      using page_ok_written by blast
  qed
  then show ?thesis
    using program_elf_verified [of img f] program_elf_rejected [of k img f] by blast
qed

theorem verification_outcome_witness:
  "page_count [1, 2] = 1
   \<and> page_ok (\<lambda>h c. [9, 1, 2, 7]) [1, 2] 0
   \<and> program_elf (sim_jtag (\<lambda>h c. [9, 1, 2, 7])) [1, 2] True [] = Returns () (verified_commands [1, 2])
   \<and> \<not> page_ok (\<lambda>h c. [9, 1, 3, 7]) [1, 2] 0
   \<and> program_elf (sim_jtag (\<lambda>h c. [9, 1, 3, 7])) [1, 2] True []
       = Raises (VerificationFailed 0 [1, 2] [1, 3, 7])
           (before_read [1, 2] 0 @ [(PROG_PAGEREAD, PInt 0)])"
proof -
  have n: "page_count [1, 2] = 1"
    by (simp add: page_count_def)
  have ok: "page_ok (\<lambda>h c. [9, 1, 2, 7]) [1, 2] 0"
    by (simp add: page_ok_def readback_def page_def)
  have bad: "\<not> page_ok (\<lambda>h c. [9, 1, 3, 7]) [1, 2] 0"
    by (simp add: page_ok_def readback_def page_def)
  from ok n have all: "\<forall>k < page_count [1, 2]. page_ok (\<lambda>h c. [9, 1, 2, 7]) [1, 2] k"
    by simp
  from verification_outcome [of "[1, 2]" "\<lambda>h c. [9, 1, 2, 7]"] all
  have a: "program_elf (sim_jtag (\<lambda>h c. [9, 1, 2, 7])) [1, 2] True []
      = Returns () (verified_commands [1, 2])"
    by blast
  from verification_outcome [of "[1, 2]" "\<lambda>h c. [9, 1, 3, 7]" _ 0] bad n
  have b: "program_elf (sim_jtag (\<lambda>h c. [9, 1, 3, 7])) [1, 2] True []
       = Raises (VerificationFailed 0 [1, 2] [1, 3, 7])
           (before_read [1, 2] 0 @ [(PROG_PAGEREAD, PInt 0)])"
    by (simp add: page_def readback_def)
  from n ok a bad b show ?thesis
    by (intro conjI)
qed

text \<open>
  C6 (fuse-write polling). The status bit is bit 1 of the second byte (index 1) of the
  two bytes \<open>PROG_COMMANDS(0x3700)\<close> returns. On a simulated chip whose answers have
  that bit clear for the first \<open>N - 1\<close> polls and set for the \<open>N\<close>th,
  \<^verbatim>\<open>poll_fuse_write_complete\<close> returns, having sent exactly \<open>N\<close> polls.
\<close>

theorem fuse_poll:
  assumes "0 < N"
    and "\<forall>k < N. 1 < length (f (h @ replicate k poll_command) poll_command)"
    and "\<forall>k < N - 1. \<not> bit (f (h @ replicate k poll_command) poll_command ! 1) 1"
    and "bit (f (h @ replicate (N - 1) poll_command) poll_command ! 1) 1"
  shows "poll_fuse_write_complete (sim_jtag f) h = Some (Returns () (h @ replicate N poll_command))"
  using assms
proof (induction N arbitrary: h)
  case 0
  then show ?case by simp
next
  case (Suc n)
  from Suc.prems(2) have len: "1 < length (f h poll_command)"
    by (metis append_Nil2 replicate_0 zero_less_Suc)
  show ?case
  proof (cases n)
    case 0
    with Suc.prems(4) len show ?thesis
      by (simp add: poll_step)
  next
    case (Suc m)
    with Suc.prems(3) have clear: "\<not> bit (f h poll_command ! 1) 1"
      by (metis append_Nil2 replicate_0 diff_Suc_1 zero_less_Suc)
    have shift: "(h @ [poll_command]) @ replicate k poll_command
        = h @ replicate (Suc k) poll_command" for k
      by simp
    have final: "(h @ [poll_command]) @ replicate n poll_command
        = h @ replicate (Suc n) poll_command"
      by simp
    have "poll_fuse_write_complete (sim_jtag f) (h @ [poll_command])
        = Some (Returns () ((h @ [poll_command]) @ replicate n poll_command))"
    proof (rule Suc.IH)
      show "0 < n" using Suc by simp
      show "\<forall>k < n. 1 < length (f ((h @ [poll_command]) @ replicate k poll_command) poll_command)"
        unfolding shift using Suc.prems(2) by (simp del: replicate_Suc)
      show "\<forall>k < n - 1. \<not> bit (f ((h @ [poll_command]) @ replicate k poll_command) poll_command ! 1) 1"
        unfolding shift using Suc.prems(3) by (simp del: replicate_Suc)
      show "bit (f ((h @ [poll_command]) @ replicate (n - 1) poll_command) poll_command ! 1) 1"
        unfolding shift using Suc.prems(4) Suc by (simp del: replicate_Suc)
    qed
    with len clear show ?thesis
      unfolding final by (simp add: poll_step [of f h] del: replicate_Suc)
  qed
qed

theorem fuse_poll_witness:
  "poll_fuse_write_complete (sim_jtag (\<lambda>h c. if length h = 2 then [0, 2] else [0, 0])) []
     = Some (Returns () [poll_command, poll_command, poll_command])"
proof -
  let ?f = "\<lambda>(h :: command list) (c :: command). if length h = 2 then [0, 2] else [0, 0 :: int]"
  have a: "(0::nat) < 3" by simp
  have b: "\<forall>k < 3. 1 < length (?f ([] @ replicate k poll_command) poll_command)"
    by simp
  have c: "\<forall>k < 3 - 1. \<not> bit (?f ([] @ replicate k poll_command) poll_command ! 1) 1"
    by simp
  have d: "bit (?f ([] @ replicate (3 - 1) poll_command) poll_command ! 1) 1"
    by simp
  from fuse_poll [of 3 ?f "[]", OF a b c d] show ?thesis
    by (simp add: numeral_3_eq_3)
qed

text \<open>
  C7 (fuse argument validation), as the program has it. When \<^verbatim>\<open>fuses\<close> is not an
  integer, \<^verbatim>\<open>program_fuses\<close> raises \<^verbatim>\<open>TypeError\<close> with the device untouched. Integer
  arguments are never refused, whatever their size or sign: on a chip that reports
  every fuse write as complete the run returns, having programmed the low 8 bits of
  \<^verbatim>\<open>extended_fuses\<close> and the low 16 bits of \<^verbatim>\<open>fuses\<close>.
\<close>

theorem fuse_arguments:
  "((\<forall>v. fuses \<noteq> PyInt v) \<longrightarrow>
      program_fuses jtag fuses extended_fuses s = Some (Raises TypeError s))
   \<and> ((\<forall>h. 1 < length (f h poll_command) \<and> bit (f h poll_command ! 1) 1) \<longrightarrow>
      program_fuses (sim_jtag f) (PyInt fv) (PyInt ev) []
        = Some (Returns () (fuse_commands (ev AND 0xff) ((drop_bit 8 fv) AND 0xff) (fv AND 0xff))))"
  using program_fuses_not_int [of fuses jtag extended_fuses s] program_fuses_ready [of f fv ev]
  by blast

theorem fuse_arguments_witness:
  "program_fuses (sim_jtag (\<lambda>h c. [0, 2])) (PyStr ''0xD9FF'') (PyInt 0xFF) []
     = Some (Raises TypeError [])
   \<and> program_fuses (sim_jtag (\<lambda>h c. [0, 2])) (PyInt 0xD9FF) (PyInt 0xFE) []
     = Some (Returns () (fuse_commands 0xFE 0xD9 0xFF))"
proof -
  let ?f = "\<lambda>(h :: command list) (c :: command). [0, 2 :: int]"
  note fa = fuse_arguments [of "PyStr ''0xD9FF''" "sim_jtag ?f" "PyInt 0xFF" "[]" ?f "0xD9FF" "0xFE"]
  have a: "\<forall>v. PyStr ''0xD9FF'' \<noteq> PyInt v"
    by simp
  have b: "\<forall>h. 1 < length (?f h poll_command) \<and> bit (?f h poll_command ! 1) 1"
    by simp
  from fa a have c: "program_fuses (sim_jtag ?f) (PyStr ''0xD9FF'') (PyInt 0xFF) []
      = Some (Raises TypeError [])"
    by blast
  from fa b have "program_fuses (sim_jtag ?f) (PyInt 0xD9FF) (PyInt 0xFE) []
      = Some (Returns () (fuse_commands (0xFE AND 0xff) ((drop_bit 8 0xD9FF) AND 0xff) (0xD9FF AND 0xff)))"
    by blast
  then have d: "program_fuses (sim_jtag ?f) (PyInt 0xD9FF) (PyInt 0xFE) []
      = Some (Returns () (fuse_commands 0xFE 0xD9 0xFF))"
    by (simp add: drop_bit_eq_div)
  from c d show ?thesis
    by (rule conjI)
qed

text \<open>
  C7 as stated fails: \<^verbatim>\<open>fuses = 0x10000\<close> and \<^verbatim>\<open>extended_fuses = -1\<close> are outside their
  widths, and the run programs \<^verbatim>\<open>0xFF\<close>, \<^verbatim>\<open>0\<close> and \<^verbatim>\<open>0\<close> without an error.
\<close>

theorem fuse_arguments_counterexample:
  "program_fuses (sim_jtag (\<lambda>h c. [0, 2])) (PyInt 0x10000) (PyInt (- 1)) []
     = Some (Returns () (fuse_commands 0xFF 0 0))"
proof -
  let ?f = "\<lambda>(h :: command list) (c :: command). [0, 2 :: int]"
  have b: "\<forall>h. 1 < length (?f h poll_command) \<and> bit (?f h poll_command ! 1) 1"
    by simp
  from program_fuses_ready [OF b, of "0x10000" "- 1"] show ?thesis
    by (simp add: drop_bit_eq_div)
qed

end
